theory Spec2Isabelle
  imports Complex_Main "HOL-Library.Multiset"
begin

section \<open>Constants of the solver (LATEST20250108.py, lines 9-42)\<close>

definition BLACKJACK :: int where
  "BLACKJACK = 21"

definition DEALER_STAND :: int where
  "DEALER_STAND = 17"

definition NUM_DECKS :: nat where
  "NUM_DECKS = 6"

definition SIMULATIONS :: nat where
  "SIMULATIONS = 10000"

text \<open>Python floats are modelled as exact rationals; \<open>RTP = 0.995\<close>.\<close>

definition RTP :: rat where
  "RTP = 995 / 1000"

definition ALL_RANKS :: "string list" where
  "ALL_RANKS = [''2'', ''3'', ''4'', ''5'', ''6''] @ [''7'', ''8'', ''9'']
                @ [''T'', ''J'', ''Q'', ''K'', ''A'']"

definition RANK_TO_VALUE :: "string \<rightharpoonup> int" where
  "RANK_TO_VALUE = map_of
     [(''2'', 2), (''3'', 3), (''4'', 4), (''5'', 5), (''6'', 6), (''7'', 7), (''8'', 8),
      (''9'', 9), (''T'', 10), (''J'', 10), (''Q'', 10), (''K'', 10), (''A'', 11)]"

definition COUNTING_SYSTEM :: "string \<rightharpoonup> rat" where
  "COUNTING_SYSTEM = map_of
     [(''2'', 1), (''7'', 1), (''3'', 1), (''6'', 2), (''4'', 2), (''5'', 2),
      (''8'', 0), (''9'', -1), (''T'', -2), (''J'', -2), (''Q'', -2), (''K'', -2),
      (''A'', 0)]"

text \<open>Every \<open>raise\<close> of the source, and every implicit Python exception the modelled
  code can run into, is a value of this type. \<open>ValueError\<close> is the "card not found
  (count is 0)" error of \<open>remove_card_from_shoe\<close>.\<close>

datatype error = ValueError | KeyError | IndexError | ZeroDivisionError

section \<open>The shoe (lines 44-85)\<close>

text \<open>The dictionary \<open>shoe_counts\<close> is a map from rank strings to counts; the module
  global \<open>running_count\<close> is the second field of the session state that
  \<open>remove_card_from_shoe\<close> mutates.\<close>

record session =
  shoe_counts :: "string \<rightharpoonup> int"
  running_count :: rat

fun initialize_from :: "string list \<Rightarrow> nat \<Rightarrow> (string \<rightharpoonup> int)" where
  "initialize_from [] num_decks = Map.empty"
| "initialize_from (rank # ranks) num_decks =
     (initialize_from ranks num_decks)(rank \<mapsto> 4 * int num_decks)"

definition initialize_shoe_counts :: "nat \<Rightarrow> (string \<rightharpoonup> int)" where
  "initialize_shoe_counts num_decks = initialize_from (rev ALL_RANKS) num_decks"

text \<open>\<open>remove_card_from_shoe\<close> returns the raised error (if any) together with the
  state as the call leaves it: the lookup \<open>shoe_counts[rank]\<close> raises \<open>KeyError\<close> on a
  missing key, a count that is not positive raises \<open>ValueError\<close> before anything is
  written, and the lookup \<open>COUNTING_SYSTEM[rank]\<close> comes after the decrement.\<close>

definition remove_card_from_shoe :: "session \<Rightarrow> string \<Rightarrow> error option \<times> session" where
  "remove_card_from_shoe st rank =
     (case shoe_counts st rank of
        None \<Rightarrow> (Some KeyError, st)
      | Some c \<Rightarrow>
          if c > 0 then
            (let st1 = st\<lparr>shoe_counts := (shoe_counts st)(rank \<mapsto> c - 1)\<rparr> in
             case COUNTING_SYSTEM rank of
               None \<Rightarrow> (Some KeyError, st1)
             | Some w \<Rightarrow> (None, st1\<lparr>running_count := running_count st1 + w\<rparr>))
          else (Some ValueError, st))"

text \<open>The loops \<open>for c in ...: remove_card_from_shoe(shoe_counts, c)\<close> of \<open>main\<close>: the
  first error ends the loop.\<close>

fun remove_cards :: "session \<Rightarrow> string list \<Rightarrow> error option \<times> session" where
  "remove_cards st [] = (None, st)"
| "remove_cards st (rank # ranks) =
     (case remove_card_from_shoe st rank of
        (Some e, st') \<Rightarrow> (Some e, st')
      | (None, st') \<Rightarrow> remove_cards st' ranks)"

text \<open>\<open>build_shoe_list\<close>: one entry per remaining card, rank by rank in the order of
  \<open>ALL_RANKS\<close>. \<open>[val] * count\<close> is the empty list for a count that is not positive.\<close>

fun build_from :: "string list \<Rightarrow> (string \<rightharpoonup> int) \<Rightarrow> int list \<Rightarrow> error + int list" where
  "build_from [] sc cards_list = Inr cards_list"
| "build_from (rank # ranks) sc cards_list =
     (case sc rank of
        None \<Rightarrow> Inl KeyError
      | Some cnt \<Rightarrow>
          (case RANK_TO_VALUE rank of
             None \<Rightarrow> Inl KeyError
           | Some val \<Rightarrow>
               build_from ranks sc
                 (if cnt > 0 then cards_list @ replicate (nat cnt) val else cards_list)))"

definition build_shoe_list :: "(string \<rightharpoonup> int) \<Rightarrow> error + int list" where
  "build_shoe_list sc = build_from ALL_RANKS sc []"

section \<open>Hand valuation (lines 87-110)\<close>

text \<open>The loop \<open>while total > BLACKJACK and aces > 0\<close> shared, word for word, by
  \<open>hand_value\<close> and \<open>is_soft_hand\<close>; it returns both loop variables.\<close>

function ace_loop :: "int \<Rightarrow> nat \<Rightarrow> int \<times> nat" where
  "ace_loop tot aces =
     (if tot > BLACKJACK \<and> aces > 0 then ace_loop (tot - 10) (aces - 1)
      else (tot, aces))"
  by pat_completeness auto
termination
  by (relation "measure (\<lambda>(tot, aces). aces)") auto

declare ace_loop.simps [simp del]

definition hand_value :: "int list \<Rightarrow> int" where
  "hand_value cards = fst (ace_loop (sum_list cards) (count_list cards 11))"

definition is_soft_hand :: "int list \<Rightarrow> bool" where
  "is_soft_hand cards = (snd (ace_loop (sum_list cards) (count_list cards 11)) > 0)"

section \<open>The source of randomness\<close>

text \<open>The module-global generator behind \<open>random.choice\<close> is an explicit state: an
  infinite stream of raw draws. \<open>random.choice(seq)\<close> on a non-empty list returns the
  entry at the head of the stream reduced below \<open>len(seq)\<close> and moves the stream on by
  one; on an empty list Python raises \<open>IndexError\<close>, which each call site below writes
  out where the source does not guard the call.\<close>

type_synonym rng = "nat \<Rightarrow> nat"

definition pick :: "rng \<Rightarrow> 'a list \<Rightarrow> 'a" where
  "pick g xs = xs ! (g 0 mod length xs)"

definition advance :: "(nat \<Rightarrow> 'a) \<Rightarrow> (nat \<Rightarrow> 'a)" where
  "advance g = (\<lambda>i. g (Suc i))"

text \<open>\<open>if val in local_shoe: local_shoe.remove(val)\<close>; \<open>list.remove\<close> deletes the
  first occurrence.\<close>

definition remove_if_present :: "int \<Rightarrow> int list \<Rightarrow> int list" where
  "remove_if_present val local_shoe =
     (if val \<in> set local_shoe then remove1 val local_shoe else local_shoe)"

section \<open>The dealer playout (lines 112-132)\<close>

text \<open>The \<open>while True\<close> loop of \<open>simulate_dealer_hand_once\<close>, on the dealer's cards, the
  local shoe and the generator; it returns all three as the loop leaves them.\<close>

function dealer_loop :: "int list \<Rightarrow> int list \<Rightarrow> rng \<Rightarrow> int list \<times> int list \<times> rng" where
  "dealer_loop dealer_cards local_shoe g =
     (if hand_value dealer_cards < DEALER_STAND \<and> local_shoe \<noteq> [] then
        dealer_loop (dealer_cards @ [pick g local_shoe])
          (remove1 (pick g local_shoe) local_shoe) (advance g)
      else (dealer_cards, local_shoe, g))"
  by pat_completeness auto
termination
proof (relation "measure (\<lambda>(dealer_cards, local_shoe, g). length local_shoe)")
  show "wf (measure (\<lambda>(dealer_cards :: int list, local_shoe :: int list, g :: rng).
    length local_shoe))"
    by simp
next
  fix dealer_cards local_shoe :: "int list" and g :: rng
  assume "hand_value dealer_cards < DEALER_STAND \<and> local_shoe \<noteq> []"
  then have "pick g local_shoe \<in> set local_shoe" and "0 < length local_shoe"
    by (simp_all add: pick_def)
  then show "((dealer_cards @ [pick g local_shoe], remove1 (pick g local_shoe) local_shoe,
      advance g), (dealer_cards, local_shoe, g))
    \<in> measure (\<lambda>(dealer_cards, local_shoe, g). length local_shoe)"
    by (simp add: length_remove1)
qed

declare dealer_loop.simps [simp del]

text \<open>The local copy of the shoe list with the upcard taken out once (lines 118-121),
  then the loop from the hand \<open>[dealer_card_val]\<close>.\<close>

definition dealer_playout :: "int \<Rightarrow> int list \<Rightarrow> rng \<Rightarrow> int list \<times> int list \<times> rng" where
  "dealer_playout dealer_card_val shoe_list g =
     dealer_loop [dealer_card_val] (remove_if_present dealer_card_val shoe_list) g"

definition simulate_dealer_hand_once :: "int \<Rightarrow> int list \<Rightarrow> rng \<Rightarrow> int \<times> rng" where
  "simulate_dealer_hand_once dealer_card_val shoe_list g =
     (case dealer_playout dealer_card_val shoe_list g of
        (dealer_cards, local_shoe, g') \<Rightarrow> (hand_value dealer_cards, g'))"

section \<open>Playing out a player hand, comparing totals (lines 154-167, 228-246)\<close>

text \<open>The helper \<open>play_out_hand\<close> local to \<open>monte_carlo_ev\<close>. It mutates both of its
  list arguments; the model returns them.\<close>

function play_out_hand :: "int list \<Rightarrow> int list \<Rightarrow> rng \<Rightarrow> int list \<times> int list \<times> rng" where
  "play_out_hand p_cards local_deck g =
     (if hand_value p_cards \<ge> 17 then (p_cards, local_deck, g)
      else if local_deck = [] then (p_cards, local_deck, g)
      else if hand_value (p_cards @ [pick g local_deck]) > 21 then
        (p_cards @ [pick g local_deck], remove1 (pick g local_deck) local_deck, advance g)
      else
        play_out_hand (p_cards @ [pick g local_deck])
          (remove1 (pick g local_deck) local_deck) (advance g))"
  by pat_completeness auto
termination
proof (relation "measure (\<lambda>(p_cards, local_deck, g). length local_deck)")
  show "wf (measure (\<lambda>(p_cards :: int list, local_deck :: int list, g :: rng).
    length local_deck))"
    by simp
next
  fix p_cards local_deck :: "int list" and g :: rng
  assume "local_deck \<noteq> []"
  then have "pick g local_deck \<in> set local_deck" and "0 < length local_deck"
    by (simp_all add: pick_def)
  then show "((p_cards @ [pick g local_deck], remove1 (pick g local_deck) local_deck,
      advance g), (p_cards, local_deck, g))
    \<in> measure (\<lambda>(p_cards, local_deck, g). length local_deck)"
    by (simp add: length_remove1)
qed

declare play_out_hand.simps [simp del]

definition compare_final_totals :: "int \<Rightarrow> int \<Rightarrow> int" where
  "compare_final_totals player_total dealer_total =
     (if player_total > 21 then -1
      else if dealer_total > 21 then 1
      else if player_total > dealer_total then 1
      else if player_total < dealer_total then -1
      else 0)"

section \<open>Stand: many dealer hands against a fixed player total (lines 170-207)\<close>

fun dealer_hands_loop :: "int \<Rightarrow> int list \<Rightarrow> nat \<Rightarrow> int list \<Rightarrow> rng \<Rightarrow> int list \<times> rng" where
  "dealer_hands_loop dealer_card_val shoe_list 0 final_totals g = (final_totals, g)"
| "dealer_hands_loop dealer_card_val shoe_list (Suc n) final_totals g =
     (case simulate_dealer_hand_once dealer_card_val shoe_list g of
        (t, g') \<Rightarrow> dealer_hands_loop dealer_card_val shoe_list n (final_totals @ [t]) g')"

definition simulate_dealer_hands ::
  "int \<Rightarrow> (string \<rightharpoonup> int) \<Rightarrow> nat \<Rightarrow> rng \<Rightarrow> error + int list \<times> rng" where
  "simulate_dealer_hands dealer_card_val sc num_simulations g =
     (case build_shoe_list sc of
        Inl e \<Rightarrow> Inl e
      | Inr shoe_list \<Rightarrow> Inr (dealer_hands_loop dealer_card_val shoe_list num_simulations [] g))"

text \<open>The body of the \<open>for d_total in dealer_totals_list\<close> loop: the new \<open>chunk_ev\<close>.\<close>

definition stand_like_step :: "int \<Rightarrow> bool \<Rightarrow> int \<Rightarrow> int \<Rightarrow> int" where
  "stand_like_step player_t is_soft chunk_ev d_total =
     (if d_total > BLACKJACK then chunk_ev + 1
      else if is_soft then
        (let soft_total = (if player_t \<le> 11 then player_t + 10 else player_t) in
         if max soft_total player_t > d_total then chunk_ev + 1
         else if max soft_total player_t < d_total then chunk_ev - 1
         else chunk_ev)
      else
        (if player_t > d_total then chunk_ev + 1
         else if player_t < d_total then chunk_ev - 1
         else chunk_ev))"

definition process_results_for_stand_like :: "int \<Rightarrow> int list \<Rightarrow> bool \<Rightarrow> int" where
  "process_results_for_stand_like player_t dealer_totals_list is_soft =
     (if player_t > BLACKJACK then -1 * int (length dealer_totals_list)
      else foldl (stand_like_step player_t is_soft) 0 dealer_totals_list)"

section \<open>One trial of each action (lines 266-296, 308-339, 356-401)\<close>

text \<open>The loop \<open>for val in player_cards\<close> that takes the player's known cards out of the
  local shoe; \<open>tmp_cards\<close> ends up a copy of \<open>player_cards\<close>.\<close>

definition remove_known_cards :: "int list \<Rightarrow> int list \<Rightarrow> int list" where
  "remove_known_cards player_cards local_shoe =
     foldl (\<lambda>shoe val. remove_if_present val shoe) local_shoe player_cards"

text \<open>A Hit trial up to the point where the dealer finishes (lines 267-284): the player's
  final cards, the local shoe handed to the dealer routine, and the generator.\<close>

definition hit_before_dealer ::
  "int list \<Rightarrow> int \<Rightarrow> int list \<Rightarrow> rng \<Rightarrow> int list \<times> int list \<times> rng" where
  "hit_before_dealer player_cards dealer_card_val shoe_list g =
     play_out_hand player_cards
       (remove_if_present dealer_card_val (remove_known_cards player_cards shoe_list)) g"

text \<open>The comparison at the end of a Hit or Double Down trial; \<open>bet\<close> is 1 or 2.\<close>

definition settle :: "int \<Rightarrow> int \<Rightarrow> int \<Rightarrow> int" where
  "settle bet p_total d_total =
     (if p_total > BLACKJACK then - bet
      else if d_total > BLACKJACK \<or> p_total > d_total then bet
      else if p_total < d_total then - bet
      else 0)"

text \<open>A trial returns what it adds to \<open>ev_chunk\<close>, and the generator.\<close>

definition hit_trial ::
  "int list \<Rightarrow> int \<Rightarrow> (string \<rightharpoonup> int) \<Rightarrow> rng \<Rightarrow> error + int \<times> rng" where
  "hit_trial player_cards dealer_card_val sc g =
     (case build_shoe_list sc of
        Inl e \<Rightarrow> Inl e
      | Inr shoe_list \<Rightarrow>
          (case hit_before_dealer player_cards dealer_card_val shoe_list g of
             (tmp_cards, local_shoe, g1) \<Rightarrow>
               (case simulate_dealer_hand_once dealer_card_val local_shoe g1 of
                  (d_total, g2) \<Rightarrow> Inr (settle 1 (hand_value tmp_cards) d_total, g2))))"

text \<open>A Double Down trial up to the dealer (lines 308-327). With an empty local shoe the
  draw is the value 0 and the generator is not used.\<close>

definition double_before_dealer ::
  "int list \<Rightarrow> int \<Rightarrow> int list \<Rightarrow> rng \<Rightarrow> int list \<times> int list \<times> rng" where
  "double_before_dealer player_cards dealer_card_val shoe_list g =
     (let local_shoe = remove_if_present dealer_card_val
                         (remove_known_cards player_cards shoe_list)
      in if local_shoe \<noteq> [] then
           (player_cards @ [pick g local_shoe],
            remove_if_present (pick g local_shoe) local_shoe, advance g)
         else (player_cards @ [0], remove_if_present 0 local_shoe, g))"

definition double_trial ::
  "int list \<Rightarrow> int \<Rightarrow> (string \<rightharpoonup> int) \<Rightarrow> rng \<Rightarrow> error + int \<times> rng" where
  "double_trial player_cards dealer_card_val sc g =
     (case build_shoe_list sc of
        Inl e \<Rightarrow> Inl e
      | Inr shoe_list \<Rightarrow>
          (case double_before_dealer player_cards dealer_card_val shoe_list g of
             (tmp_cards, local_shoe, g1) \<Rightarrow>
               (case simulate_dealer_hand_once dealer_card_val local_shoe g1 of
                  (d_total, g2) \<Rightarrow> Inr (settle 2 (hand_value tmp_cards) d_total, g2))))"

text \<open>One sub-hand of a Split trial (lines 370-383 and 387-397): \<open>random.choice\<close> is
  not guarded here, so an empty local shoe raises \<open>IndexError\<close>. The dealer routine works
  on a copy, so the local shoe after the sub-hand is the one the player left.\<close>

definition split_sub_hand ::
  "int \<Rightarrow> int \<Rightarrow> int list \<Rightarrow> rng \<Rightarrow> error + int \<times> int list \<times> rng" where
  "split_sub_hand split_card_val dealer_card_val local_shoe g =
     (if local_shoe = [] then Inl IndexError
      else
        (case play_out_hand [split_card_val, pick g local_shoe]
                (remove1 (pick g local_shoe) local_shoe) (advance g) of
           (sub_hand, local_shoe', g1) \<Rightarrow>
             (case simulate_dealer_hand_once dealer_card_val local_shoe' g1 of
                (dealer_final, g2) \<Rightarrow>
                  Inr (compare_final_totals (hand_value sub_hand) dealer_final,
                       local_shoe', g2))))"

text \<open>A Split trial. \<open>continue\<close> (fewer than two cards of the split value in the shoe)
  adds nothing to \<open>ev_chunk\<close> and draws nothing.\<close>

definition split_trial ::
  "int \<Rightarrow> int \<Rightarrow> (string \<rightharpoonup> int) \<Rightarrow> rng \<Rightarrow> error + int \<times> rng" where
  "split_trial split_card_val dealer_card_val sc g =
     (case build_shoe_list sc of
        Inl e \<Rightarrow> Inl e
      | Inr shoe_list \<Rightarrow>
          if count_list shoe_list split_card_val \<ge> 2 then
            (case split_sub_hand split_card_val dealer_card_val
                    (remove_if_present dealer_card_val
                       (remove1 split_card_val (remove1 split_card_val shoe_list))) g of
               Inl e \<Rightarrow> Inl e
             | Inr (result_1, local_shoe1, g1) \<Rightarrow>
                 (case split_sub_hand split_card_val dealer_card_val local_shoe1 g1 of
                    Inl e \<Rightarrow> Inl e
                  | Inr (result_2, local_shoe2, g2) \<Rightarrow> Inr (result_1 + result_2, g2)))
          else Inr (0, g))"

section \<open>The estimator (lines 209-422)\<close>

text \<open>\<open>for _ in range(chunk_size)\<close> around one trial, from \<open>ev_chunk\<close> so far.\<close>

fun trials_loop ::
  "(rng \<Rightarrow> error + int \<times> rng) \<Rightarrow> nat \<Rightarrow> int \<Rightarrow> rng \<Rightarrow> error + int \<times> rng" where
  "trials_loop trial 0 ev_chunk g = Inr (ev_chunk, g)"
| "trials_loop trial (Suc n) ev_chunk g =
     (case trial g of
        Inl e \<Rightarrow> Inl e
      | Inr (r, g') \<Rightarrow> trials_loop trial n (ev_chunk + r) g')"

text \<open>The Stand chunk (lines 254-255).\<close>

definition stand_chunk ::
  "int \<Rightarrow> bool \<Rightarrow> int \<Rightarrow> (string \<rightharpoonup> int) \<Rightarrow> nat \<Rightarrow> rng \<Rightarrow> error + int \<times> rng" where
  "stand_chunk player_total is_soft_player dealer_card_val sc chunk_size g =
     (case simulate_dealer_hands dealer_card_val sc chunk_size g of
        Inl e \<Rightarrow> Inl e
      | Inr (dealer_totals, g') \<Rightarrow>
          Inr (process_results_for_stand_like player_total dealer_totals is_soft_player, g'))"

text \<open>\<open>for i in range(10)\<close> of Stand, Hit and Double Down, which differ in the chunk only:
  run the chunk, add it to \<open>ev\<close>, append \<open>ev / ((i + 1) * chunk_size)\<close>. The division is
  Python's true division and raises \<open>ZeroDivisionError\<close> on a zero divisor.\<close>

fun checkpoint_loop ::
  "(rng \<Rightarrow> error + int \<times> rng) \<Rightarrow> nat \<Rightarrow> nat list \<Rightarrow> int \<Rightarrow> rat list \<Rightarrow> rng
     \<Rightarrow> error + int \<times> rat list \<times> rng" where
  "checkpoint_loop chunk chunk_size [] ev checkpoint_means g = Inr (ev, checkpoint_means, g)"
| "checkpoint_loop chunk chunk_size (i # rest) ev checkpoint_means g =
     (case chunk g of
        Inl e \<Rightarrow> Inl e
      | Inr (ev_chunk, g') \<Rightarrow>
          if (i + 1) * chunk_size = 0 then Inl ZeroDivisionError
          else checkpoint_loop chunk chunk_size rest (ev + ev_chunk)
                 (checkpoint_means @
                    [of_int (ev + ev_chunk) / of_nat ((i + 1) * chunk_size)]) g')"

text \<open>\<open>for i in range(10)\<close> of Split: \<open>split_ev_accumulator += ev_chunk\<close>, and nothing is
  appended to \<open>checkpoint_means\<close>.\<close>

fun split_loop ::
  "(rng \<Rightarrow> error + int \<times> rng) \<Rightarrow> nat list \<Rightarrow> int \<Rightarrow> rng \<Rightarrow> error + int \<times> rng" where
  "split_loop chunk [] split_ev_accumulator g = Inr (split_ev_accumulator, g)"
| "split_loop chunk (i # rest) split_ev_accumulator g =
     (case chunk g of
        Inl e \<Rightarrow> Inl e
      | Inr (ev_chunk, g') \<Rightarrow> split_loop chunk rest (split_ev_accumulator + ev_chunk) g')"

text \<open>The branch on \<open>action\<close>: the value of \<open>ev\<close> and of \<open>checkpoint_means\<close> after it.
  An action that is none of the four strings leaves \<open>ev = 0\<close> and no checkpoints.\<close>

definition run_action ::
  "int list \<Rightarrow> int \<Rightarrow> (string \<rightharpoonup> int) \<Rightarrow> string \<Rightarrow> nat \<Rightarrow> rng
     \<Rightarrow> error + rat \<times> rat list \<times> rng" where
  "run_action player_cards dealer_card_val sc action chunk_size g =
     (if action = ''Stand'' then
        (case checkpoint_loop
                (stand_chunk (hand_value player_cards) (is_soft_hand player_cards)
                   dealer_card_val sc chunk_size)
                chunk_size [0..<10] 0 [] g of
           Inl e \<Rightarrow> Inl e
         | Inr (ev, checkpoint_means, g') \<Rightarrow> Inr (of_int ev, checkpoint_means, g'))
      else if action = ''Hit'' then
        (case checkpoint_loop
                (trials_loop (hit_trial player_cards dealer_card_val sc) chunk_size 0)
                chunk_size [0..<10] 0 [] g of
           Inl e \<Rightarrow> Inl e
         | Inr (ev, checkpoint_means, g') \<Rightarrow> Inr (of_int ev, checkpoint_means, g'))
      else if action = ''Double Down'' then
        (case checkpoint_loop
                (trials_loop (double_trial player_cards dealer_card_val sc) chunk_size 0)
                chunk_size [0..<10] 0 [] g of
           Inl e \<Rightarrow> Inl e
         | Inr (ev, checkpoint_means, g') \<Rightarrow> Inr (of_int ev, checkpoint_means, g'))
      else if action = ''Split'' then
        (case player_cards of
           [] \<Rightarrow> Inl IndexError
         | split_card_val # _ \<Rightarrow>
             (case split_loop
                     (trials_loop (split_trial split_card_val dealer_card_val sc) chunk_size 0)
                     [0..<10] 0 g of
                Inl e \<Rightarrow> Inl e
              | Inr (split_ev_accumulator, g') \<Rightarrow>
                  if 10 * chunk_size = 0 then Inl ZeroDivisionError
                  else Inr (of_int split_ev_accumulator / of_nat (10 * chunk_size), [], g')))
      else Inr (0, [], g))"

text \<open>\<open>monte_carlo_ev\<close>. The two readings of \<open>time.time()\<close> come from a stream of clock
  readings, threaded like the generator; the printing is left out. The result is
  \<open>(final_ev, elapsed_time, checkpoint_means)\<close> with the generator and the clock as the
  call leaves them.\<close>

definition monte_carlo_ev ::
  "int list \<Rightarrow> int \<Rightarrow> (string \<rightharpoonup> int) \<Rightarrow> string \<Rightarrow> nat \<Rightarrow> rng \<Rightarrow> (nat \<Rightarrow> rat)
     \<Rightarrow> error + (rat \<times> rat \<times> rat list) \<times> rng \<times> (nat \<Rightarrow> rat)" where
  "monte_carlo_ev player_cards dealer_card_val sc action simulations g clock =
     (let start_time = clock 0;
          chunk_size = simulations div 10
      in case run_action player_cards dealer_card_val sc action chunk_size g of
           Inl e \<Rightarrow> Inl e
         | Inr (ev, checkpoint_means, g') \<Rightarrow>
             (let elapsed_time = advance clock 0 - start_time in
              if simulations = 0 then Inl ZeroDivisionError
              else Inr ((ev / of_nat simulations * RTP, elapsed_time, checkpoint_means),
                        g', advance (advance clock))))"

section \<open>Choosing the action (lines 424-478)\<close>

definition legal_actions :: "int list \<Rightarrow> bool \<Rightarrow> bool \<Rightarrow> string list" where
  "legal_actions player_cards is_first_turn is_split_hand =
     [''Stand'', ''Hit'']
     @ (if is_first_turn \<and> length player_cards = 2 \<and> \<not> is_split_hand
        then [''Double Down''] else [])
     @ (if is_first_turn \<and> length player_cards = 2 \<and> player_cards ! 0 = player_cards ! 1
        then [''Split''] else [])"

text \<open>\<open>for action in actions\<close>: the dictionary \<open>evs\<close>, in insertion order (the actions are
  distinct, so no entry is overwritten).\<close>

fun evaluate_actions ::
  "int list \<Rightarrow> int \<Rightarrow> (string \<rightharpoonup> int) \<Rightarrow> string list \<Rightarrow> rng \<Rightarrow> (nat \<Rightarrow> rat)
     \<Rightarrow> error + (string \<times> rat) list \<times> rng \<times> (nat \<Rightarrow> rat)" where
  "evaluate_actions player_cards dealer_card_val sc [] g clock = Inr ([], g, clock)"
| "evaluate_actions player_cards dealer_card_val sc (action # actions) g clock =
     (case monte_carlo_ev player_cards dealer_card_val sc action SIMULATIONS g clock of
        Inl e \<Rightarrow> Inl e
      | Inr ((ev, elapsed_time, checkpoint_means), g', clock') \<Rightarrow>
          (case evaluate_actions player_cards dealer_card_val sc actions g' clock' of
             Inl e \<Rightarrow> Inl e
           | Inr (evs, g'', clock'') \<Rightarrow> Inr ((action, ev) # evs, g'', clock'')))"

text \<open>Lines 454-457 on \<open>evs.items()\<close>: \<open>sorted(..., key=lambda x: x[1], reverse=True)\<close> is
  a stable sort by descending EV, that is a stable sort by the negated key; then
  \<open>(best_action, second_best_action, ev_diff)\<close>, with \<open>None\<close> for a missing runner-up.\<close>

definition rank_actions :: "(string \<times> rat) list \<Rightarrow> error + string \<times> string option \<times> rat" where
  "rank_actions evs =
     (let sorted_actions = sort_key (\<lambda>x. - snd x) evs in
      if sorted_actions = [] then Inl IndexError
      else Inr (fst (sorted_actions ! 0),
                (if length sorted_actions > 1 then Some (fst (sorted_actions ! 1)) else None),
                (if length sorted_actions > 1
                 then snd (sorted_actions ! 0) - snd (sorted_actions ! 1) else 0)))"

text \<open>Lines 474-475: the difference is printed, on the row of the best action, only when
  \<open>second_best_action\<close> is truthy (not \<open>None\<close> and not the empty string); the value is
  what the printed report shows of \<open>ev_diff\<close>.\<close>

definition printed_ev_diff :: "string option \<Rightarrow> rat \<Rightarrow> rat option" where
  "printed_ev_diff second_best_action ev_diff =
     (case second_best_action of
        None \<Rightarrow> None
      | Some a \<Rightarrow> if a = [] then None else Some ev_diff)"

text \<open>\<open>get_player_action\<close> returns \<open>best_action\<close>; the runner-up and the difference
  reach the printed report only.\<close>

definition get_player_action ::
  "int list \<Rightarrow> int \<Rightarrow> (string \<rightharpoonup> int) \<Rightarrow> bool \<Rightarrow> bool \<Rightarrow> rng \<Rightarrow> (nat \<Rightarrow> rat)
     \<Rightarrow> error + string \<times> rng \<times> (nat \<Rightarrow> rat)" where
  "get_player_action player_cards dealer_card_val sc is_first_turn is_split_hand g clock =
     (case evaluate_actions player_cards dealer_card_val sc
             (legal_actions player_cards is_first_turn is_split_hand) g clock of
        Inl e \<Rightarrow> Inl e
      | Inr (evs, g', clock') \<Rightarrow>
          (case rank_actions evs of
             Inl e \<Rightarrow> Inl e
           | Inr (best_action, second_best_action, ev_diff) \<Rightarrow> Inr (best_action, g', clock')))"

section \<open>The dealer of the RNG variant (11-23-BJSOLV-RNG.py, lines 7-30)\<close>

text \<open>That file's \<open>hand_value\<close> is the one above. Its dealer draws from the constant list
  \<open>DECK\<close>, which nothing changes.\<close>

definition DECK :: "int list" where
  "DECK = [2, 3, 4, 5, 6, 7, 8, 9, 10, 10, 10, 10, 11]"

definition dealer_draws_again :: "int list \<Rightarrow> bool" where
  "dealer_draws_again dealer_hand =
     (hand_value dealer_hand < DEALER_STAND
      \<or> (hand_value dealer_hand = DEALER_STAND \<and> 11 \<in> set dealer_hand))"

text \<open>Two facts about the ace loop that the termination of the dealer loop below needs:
  the value of a hand is never below its sum with every 11 counted as 1.\<close>

lemma ace_loop_0 [simp]: "ace_loop t 0 = (t, 0)"
  by (subst ace_loop.simps) simp

lemma ace_loop_Suc [simp]:
  "ace_loop t (Suc a) = (if t > 21 then ace_loop (t - 10) a else (t, Suc a))"
  by (subst ace_loop.simps) (simp add: BLACKJACK_def)

lemma ace_loop_lower: "t - 10 * int a \<le> fst (ace_loop t a)"
proof (induction a arbitrary: t)
  case 0
  show ?case by simp
next
  case (Suc a)
  from Suc[of "t - 10"] show ?case by (simp add: diff_diff_eq)
qed

lemma hand_value_lower: "sum_list cs - 10 * int (count_list cs 11) \<le> hand_value cs"
  unfolding hand_value_def by (rule ace_loop_lower)

text \<open>The \<open>while True\<close> loop of \<open>simulate_dealer_hand\<close>; it returns the hand (which the
  source mutates) and the generator. The value the source returns is \<open>hand_value\<close> of
  that hand.\<close>

function simulate_dealer_hand :: "int list \<Rightarrow> rng \<Rightarrow> int list \<times> rng" where
  "simulate_dealer_hand dealer_hand g =
     (if dealer_draws_again dealer_hand then
        simulate_dealer_hand (dealer_hand @ [pick g DECK]) (advance g)
      else (dealer_hand, g))"
  by pat_completeness auto
termination
proof (relation "measure (\<lambda>(dealer_hand, g).
    nat (18 - (sum_list dealer_hand - 10 * int (count_list dealer_hand 11))))")
  show "wf (measure (\<lambda>(dealer_hand :: int list, g :: rng).
    nat (18 - (sum_list dealer_hand - 10 * int (count_list dealer_hand 11)))))"
    by simp
next
  fix dealer_hand :: "int list" and g :: rng
  assume "dealer_draws_again dealer_hand"
  then have "hand_value dealer_hand \<le> 17"
    by (auto simp: dealer_draws_again_def DEALER_STAND_def)
  with hand_value_lower[of dealer_hand]
  have hard: "sum_list dealer_hand - 10 * int (count_list dealer_hand 11) \<le> 17"
    by simp
  have "pick g DECK \<in> set DECK"
    unfolding pick_def by (rule nth_mem) (simp add: DECK_def)
  then have "pick g DECK - 10 * int (count_list [pick g DECK] 11) \<ge> 1"
    by (auto simp: DECK_def)
  then have "sum_list (dealer_hand @ [pick g DECK])
      - 10 * int (count_list (dealer_hand @ [pick g DECK]) 11)
    > sum_list dealer_hand - 10 * int (count_list dealer_hand 11)"
    by (simp add: count_list_append)
  with hard show "((dealer_hand @ [pick g DECK], advance g), (dealer_hand, g))
    \<in> measure (\<lambda>(dealer_hand, g).
        nat (18 - (sum_list dealer_hand - 10 * int (count_list dealer_hand 11))))"
    by simp
qed

declare simulate_dealer_hand.simps [simp del]

definition simulate_dealer_hand_total :: "int list \<Rightarrow> rng \<Rightarrow> int \<times> rng" where
  "simulate_dealer_hand_total dealer_hand g =
     (case simulate_dealer_hand dealer_hand g of (hand, g') \<Rightarrow> (hand_value hand, g'))"

section \<open>Reference notions for the claims\<close>

text \<open>Every way of valuing the aces of a hand: each card 11 stays 11 or becomes 1.\<close>

fun ace_assignments :: "int list \<Rightarrow> int list list" where
  "ace_assignments [] = [[]]"
| "ace_assignments (c # cs) =
     (if c = 11 then map ((#) 11) (ace_assignments cs) @ map ((#) 1) (ace_assignments cs)
      else map ((#) c) (ace_assignments cs))"

definition achievable_totals :: "int list \<Rightarrow> int set" where
  "achievable_totals cards = sum_list ` set (ace_assignments cards)"

definition hard_sum :: "int list \<Rightarrow> int" where
  "hard_sum cards = sum_list (map (\<lambda>c. if c = 11 then 1 else c) cards)"

text \<open>The payoffs of \<open>n\<close> consecutive trials, one after the other on the same generator:
  the flat sequence that the chunked loops of the estimator add up.\<close>

fun trial_payoffs ::
  "(rng \<Rightarrow> error + int \<times> rng) \<Rightarrow> nat \<Rightarrow> rng \<Rightarrow> error + int list \<times> rng" where
  "trial_payoffs trial 0 g = Inr ([], g)"
| "trial_payoffs trial (Suc n) g =
     (case trial g of
        Inl e \<Rightarrow> Inl e
      | Inr (r, g') \<Rightarrow>
          (case trial_payoffs trial n g' of
             Inl e \<Rightarrow> Inl e
           | Inr (rs, g'') \<Rightarrow> Inr (r # rs, g'')))"

text \<open>A Stand trial: one dealer hand from a freshly built shoe list, settled against the
  player's fixed total as one round of \<open>process_results_for_stand_like\<close> settles it.\<close>

definition stand_payoff :: "int \<Rightarrow> bool \<Rightarrow> int \<Rightarrow> int" where
  "stand_payoff player_t is_soft d_total =
     (if player_t > BLACKJACK then -1 else stand_like_step player_t is_soft 0 d_total)"

definition stand_trial ::
  "int list \<Rightarrow> int \<Rightarrow> (string \<rightharpoonup> int) \<Rightarrow> rng \<Rightarrow> error + int \<times> rng" where
  "stand_trial player_cards dealer_card_val sc g =
     (case build_shoe_list sc of
        Inl e \<Rightarrow> Inl e
      | Inr shoe_list \<Rightarrow>
          (case simulate_dealer_hand_once dealer_card_val shoe_list g of
             (d_total, g') \<Rightarrow>
               Inr (stand_payoff (hand_value player_cards) (is_soft_hand player_cards) d_total,
                    g')))"

definition action_trial ::
  "string \<Rightarrow> int list \<Rightarrow> int \<Rightarrow> (string \<rightharpoonup> int) \<Rightarrow> rng \<Rightarrow> error + int \<times> rng" where
  "action_trial action player_cards dealer_card_val sc =
     (if action = ''Stand'' then stand_trial player_cards dealer_card_val sc
      else if action = ''Hit'' then hit_trial player_cards dealer_card_val sc
      else double_trial player_cards dealer_card_val sc)"

text \<open>A shoe for the concrete runs below: four cards of each rank with the upcard ten and
  the player's two eights removed, as \<open>main\<close> removes them.\<close>

definition example_shoe :: "string \<rightharpoonup> int" where
  "example_shoe = shoe_counts (snd (remove_cards
      \<lparr>shoe_counts = initialize_shoe_counts 1, running_count = 0\<rparr> [''T'', ''8'', ''8'']))"

text \<open>Two generators agree on their first \<open>k\<close> draws; the generator after \<open>k\<close>
  draws.\<close>

definition agree :: "nat \<Rightarrow> rng \<Rightarrow> rng \<Rightarrow> bool" where
  "agree k g1 g2 = (\<forall>i<k. g1 i = g2 i)"

definition drop_draws :: "nat \<Rightarrow> rng \<Rightarrow> rng" where
  "drop_draws k g = (\<lambda>i. g (k + i))"

text \<open>A computation on the generator reads a finite prefix of it: some \<open>k\<close> draws decide
  whether it raises and what it returns, and it leaves the generator \<open>k\<close> draws on.\<close>

definition reads_err :: "(rng \<Rightarrow> error + 'a \<times> rng) \<Rightarrow> rng \<Rightarrow> bool" where
  "reads_err f g =
     (\<exists>k. (\<exists>e. \<forall>g2. agree k g g2 \<longrightarrow> f g2 = Inl e)
        \<or> (\<exists>x. \<forall>g2. agree k g g2 \<longrightarrow> f g2 = Inr (x, drop_draws k g2)))"

text \<open>The fixed priority order of the four actions: the order in which
  \<open>get_player_action\<close> lists them.\<close>

definition priority :: "string \<Rightarrow> nat" where
  "priority a =
     (if a = ''Stand'' then 0 else if a = ''Hit'' then 1
      else if a = ''Double Down'' then 2 else 3)"

section \<open>Hand valuation: the best total and softness\<close>

lemma ace_loop_snd_le: "snd (ace_loop t a) \<le> a"
  by (induction a arbitrary: t) (auto simp: le_SucI)

lemma ace_loop_fst: "fst (ace_loop t a) = t - 10 * int (a - snd (ace_loop t a))"
proof (induction a arbitrary: t)
  case 0 show ?case by simp
next
  case (Suc a)
  have "snd (ace_loop (t - 10) a) \<le> a" by (rule ace_loop_snd_le)
  then have "Suc a - snd (ace_loop (t - 10) a) = Suc (a - snd (ace_loop (t - 10) a))" by simp
  with Suc[of "t - 10"] show ?case by simp
qed

lemma ace_loop_soft_le21: "0 < snd (ace_loop t a) \<Longrightarrow> fst (ace_loop t a) \<le> 21"
  by (induction a arbitrary: t) (auto split: if_splits)

lemma ace_loop_le21: "t - 10 * int a \<le> 21 \<Longrightarrow> fst (ace_loop t a) \<le> 21"
  by (induction a arbitrary: t) (auto split: if_splits)

lemma ace_loop_minimal: "j < a - snd (ace_loop t a) \<Longrightarrow> t - 10 * int j > 21"
proof (induction a arbitrary: t j)
  case 0 then show ?case by simp
next
  case (Suc a)
  show ?case
  proof (cases "t > 21")
    case False
    with Suc.prems show ?thesis by simp
  next
    case True
    show ?thesis
    proof (cases j)
      case 0 with True show ?thesis by simp
    next
      case (Suc k)
      have "snd (ace_loop (t - 10) a) \<le> a" by (rule ace_loop_snd_le)
      with Suc.prems True Suc have "k < a - snd (ace_loop (t - 10) a)" by simp
      from Suc.IH[OF this] show ?thesis using Suc by simp
    qed
  qed
qed

lemma sum_list_assign:
  "a \<in> set (ace_assignments cs) \<Longrightarrow>
   \<exists>j\<le>count_list cs 11. sum_list a = sum_list cs - 10 * int j \<and>
      count_list a 11 = count_list cs 11 - j"
proof (induction cs arbitrary: a)
  case Nil then show ?case by simp
next
  case (Cons c cs)
  show ?case
  proof (cases "c = 11")
    case False
    with Cons.prems obtain b where b: "a = c # b" "b \<in> set (ace_assignments cs)" by auto
    from Cons.IH[OF b(2)] obtain j where "j\<le>count_list cs 11" "sum_list b = sum_list cs - 10 * int j"
      "count_list b 11 = count_list cs 11 - j" by auto
    then show ?thesis using False b(1) by (intro exI[of _ j]) auto
  next
    case True
    with Cons.prems obtain b where b: "a = 11 # b \<or> a = 1 # b" "b \<in> set (ace_assignments cs)" by auto
    from Cons.IH[OF b(2)] obtain j where j: "j\<le>count_list cs 11" "sum_list b = sum_list cs - 10 * int j"
      "count_list b 11 = count_list cs 11 - j" by auto
    from b(1) show ?thesis
    proof
      assume "a = 11 # b"
      then show ?thesis using True j by (intro exI[of _ j]) auto
    next
      assume "a = 1 # b"
      then show ?thesis using True j by (intro exI[of _ "Suc j"]) auto
    qed
  qed
qed

lemma assign_exists:
  "j \<le> count_list cs 11 \<Longrightarrow>
   \<exists>a\<in>set (ace_assignments cs). sum_list a = sum_list cs - 10 * int j \<and>
      count_list a 11 = count_list cs 11 - j"
proof (induction cs arbitrary: j)
  case Nil then show ?case by simp
next
  case (Cons c cs)
  show ?case
  proof (cases "c = 11")
    case False
    with Cons.prems have "j \<le> count_list cs 11" by simp
    from Cons.IH[OF this] show ?thesis using False by auto
  next
    case True
    show ?thesis
    proof (cases j)
      case 0
      from Cons.IH[of 0] obtain a where "a\<in>set (ace_assignments cs)" "sum_list a = sum_list cs" "count_list a 11 = count_list cs 11" by auto
      then show ?thesis using True 0 by (auto intro!: bexI[of _ "11 # a"])
    next
      case (Suc k)
      with Cons.prems True have "k \<le> count_list cs 11" by simp
      from Cons.IH[OF this] obtain a where "a\<in>set (ace_assignments cs)" "sum_list a = sum_list cs - 10 * int k" "count_list a 11 = count_list cs 11 - k" by auto
      then show ?thesis using True Suc by (auto intro!: bexI[of _ "1 # a"])
    qed
  qed
qed

lemma achievable_totals_eq:
  "achievable_totals cs = (\<lambda>j. sum_list cs - 10 * int j) ` {0..count_list cs 11}"
proof (rule set_eqI, rule iffI)
  fix t assume "t \<in> achievable_totals cs"
  then obtain a where "a \<in> set (ace_assignments cs)" "t = sum_list a"
    by (auto simp: achievable_totals_def)
  with sum_list_assign[of a cs] show "t \<in> (\<lambda>j. sum_list cs - 10 * int j) ` {0..count_list cs 11}"
    by auto
next
  fix t assume "t \<in> (\<lambda>j. sum_list cs - 10 * int j) ` {0..count_list cs 11}"
  then obtain j where "j \<le> count_list cs 11" "t = sum_list cs - 10 * int j" by auto
  with assign_exists[of j cs] show "t \<in> achievable_totals cs"
    by (force simp: achievable_totals_def)
qed

lemma hard_sum_eq: "hard_sum cs = sum_list cs - 10 * int (count_list cs 11)"
  by (induction cs) (auto simp: hard_sum_def)

lemma hand_value_reductions:
  "hand_value cs = sum_list cs - 10 * int (count_list cs 11 - snd (ace_loop (sum_list cs) (count_list cs 11)))"
  unfolding hand_value_def by (rule ace_loop_fst)

text \<open>Claim C2. For every hand (a list of card values, each ace entered as 11),
  \<open>hand_value\<close> is the largest total at most 21 among all ways of valuing each ace as 1
  or 11 when some such total is at most 21, and the hard sum (every ace as 1) otherwise:
  the loop that takes 10 off for one ace at a time while the total is over 21 computes
  that best total.\<close>

theorem hand_value_best_total:
  "hand_value cards =
     (if \<exists>t\<in>achievable_totals cards. t \<le> 21
      then Max {t \<in> achievable_totals cards. t \<le> 21}
      else hard_sum cards)"
proof -
  define s where "s = sum_list cards"
  define n where "n = count_list cards 11"
  define r where "r = snd (ace_loop s n)"
  define k where "k = n - r"
  have r_le: "r \<le> n" unfolding r_def by (rule ace_loop_snd_le)
  have hv: "hand_value cards = s - 10 * int k"
    unfolding k_def r_def s_def n_def by (rule hand_value_reductions)
  have tot: "achievable_totals cards = (\<lambda>j. s - 10 * int j) ` {0..n}"
    unfolding s_def n_def by (rule achievable_totals_eq)
  have k_le: "k \<le> n" unfolding k_def by simp
  have mem: "hand_value cards \<in> achievable_totals cards"
    unfolding tot hv using k_le by auto
  show ?thesis
  proof (cases "\<exists>t\<in>achievable_totals cards. t \<le> 21")
    case True
    then obtain j where j: "j \<le> n" "s - 10 * int j \<le> 21" unfolding tot by auto
    then have "s - 10 * int n \<le> 21" by simp
    then have le: "hand_value cards \<le> 21"
      unfolding hand_value_def s_def n_def by (rule ace_loop_le21)
    have fin: "finite {t \<in> achievable_totals cards. t \<le> 21}" unfolding tot by simp
    have ub: "t \<le> hand_value cards" if "t \<in> {t \<in> achievable_totals cards. t \<le> 21}" for t
    proof -
      from that obtain i where i: "i \<le> n" "t = s - 10 * int i" "t \<le> 21" unfolding tot by auto
      have "\<not> i < k"
      proof
        assume "i < k"
        then have "i < n - snd (ace_loop s n)" unfolding k_def r_def .
        then have "s - 10 * int i > 21" by (rule ace_loop_minimal)
        with i show False by simp
      qed
      then show ?thesis unfolding hv i by simp
    qed
    have "Max {t \<in> achievable_totals cards. t \<le> 21} = hand_value cards"
      by (rule Max_eqI[OF fin ub]) (use mem le in auto)
    with True show ?thesis by simp
  next
    case False
    with mem have "\<not> hand_value cards \<le> 21" by blast
    then have "\<not> 0 < r"
      unfolding r_def hand_value_def s_def n_def using ace_loop_soft_le21 by blast
    then have "k = n" unfolding k_def by simp
    then have "hand_value cards = hard_sum cards"
      unfolding hv hard_sum_eq s_def n_def by simp
    with False show ?thesis by simp
  qed
qed

lemma is_soft_hand_reductions:
  "is_soft_hand cs \<longleftrightarrow> 0 < count_list cs 11 - nat ((sum_list cs - hand_value cs) div 10)"
proof -
  define n where "n = count_list cs 11"
  define r where "r = snd (ace_loop (sum_list cs) n)"
  have r_le: "r \<le> n" unfolding r_def by (rule ace_loop_snd_le)
  have "hand_value cs = sum_list cs - 10 * int (n - r)"
    unfolding r_def n_def by (rule hand_value_reductions)
  then have "nat ((sum_list cs - hand_value cs) div 10) = n - r" by simp
  then show ?thesis unfolding is_soft_hand_def n_def[symmetric] r_def[symmetric]
    using r_le by auto
qed

lemma is_soft_hand_assignment:
  "is_soft_hand cs \<longleftrightarrow>
     (\<exists>a\<in>set (ace_assignments cs). sum_list a = hand_value cs \<and> 11 \<in> set a)"
proof -
  define n where "n = count_list cs 11"
  define r where "r = snd (ace_loop (sum_list cs) n)"
  have r_le: "r \<le> n" unfolding r_def by (rule ace_loop_snd_le)
  have hv: "hand_value cs = sum_list cs - 10 * int (n - r)"
    unfolding r_def n_def by (rule hand_value_reductions)
  have soft: "is_soft_hand cs \<longleftrightarrow> 0 < r"
    unfolding is_soft_hand_def r_def n_def ..
  show ?thesis
  proof
    assume "is_soft_hand cs"
    then have pos: "0 < r" using soft by simp
    have "n - r \<le> count_list cs 11" unfolding n_def by simp
    from assign_exists[OF this] obtain a where a: "a \<in> set (ace_assignments cs)"
      "sum_list a = sum_list cs - 10 * int (n - r)" "count_list a 11 = count_list cs 11 - (n - r)"
      by auto
    from a(3) pos r_le have "count_list a 11 \<noteq> 0" unfolding n_def[symmetric] by simp
    then have "11 \<in> set a" by (simp add: count_list_0_iff)
    with a(1,2) hv show "\<exists>a\<in>set (ace_assignments cs). sum_list a = hand_value cs \<and> 11 \<in> set a"
      by auto
  next
    assume "\<exists>a\<in>set (ace_assignments cs). sum_list a = hand_value cs \<and> 11 \<in> set a"
    then obtain a where a: "a \<in> set (ace_assignments cs)" "sum_list a = hand_value cs" "11 \<in> set a"
      by auto
    from sum_list_assign[OF a(1)] obtain j where j: "j \<le> n"
      "sum_list a = sum_list cs - 10 * int j" "count_list a 11 = n - j"
      unfolding n_def by auto
    from a(3) have "count_list a 11 \<noteq> 0" by (simp add: count_list_0_iff)
    with j have "j < n" by simp
    moreover from j(2) a(2) hv have "j = n - r" by simp
    ultimately have "0 < r" by simp
    then show "is_soft_hand cs" using soft by simp
  qed
qed

lemma ace_and_ten:
  "hand_value [11, 10] = 21 \<and> is_soft_hand [11, 10]
   \<and> hand_value [10, 11] = 21 \<and> is_soft_hand [10, 11]"
  by (simp add: hand_value_def is_soft_hand_def)

text \<open>Claim C9. \<open>is_soft_hand\<close> is true exactly when, after the reductions that
  \<open>hand_value\<close> makes (their number is the sum of the cards minus the hand value, over
  10), an ace is left at 11; that is, exactly when some valuation of the aces reaches the
  hand value with an ace still at 11. An ace with a ten-valued card has total 21 and is
  soft.\<close>

theorem is_soft_hand_ace_left_at_11:
  "(is_soft_hand cards \<longleftrightarrow>
      0 < count_list cards 11 - nat ((sum_list cards - hand_value cards) div 10))
   \<and> (is_soft_hand cards \<longleftrightarrow>
      (\<exists>a\<in>set (ace_assignments cards). sum_list a = hand_value cards \<and> 11 \<in> set a))
   \<and> hand_value [11, 10] = 21 \<and> is_soft_hand [11, 10]
   \<and> hand_value [10, 11] = 21 \<and> is_soft_hand [10, 11]"
  using is_soft_hand_reductions[of cards] is_soft_hand_assignment[of cards] ace_and_ten
  by blast

section \<open>Removing cards from the shoe\<close>

lemma counting_system_defined:
  "rank \<in> set ALL_RANKS \<Longrightarrow> \<exists>w. COUNTING_SYSTEM rank = Some w"
  by (auto simp: ALL_RANKS_def COUNTING_SYSTEM_def)

lemma remove_card_ok:
  assumes "rank \<in> set ALL_RANKS" "shoe_counts st rank = Some c" "0 < c"
  shows "fst (remove_card_from_shoe st rank) = None"
    and "shoe_counts (snd (remove_card_from_shoe st rank)) = (shoe_counts st)(rank \<mapsto> c - 1)"
  using assms counting_system_defined[OF assms(1)]
  by (auto simp: remove_card_from_shoe_def Let_def)

lemma remove_card_fail:
  assumes "shoe_counts st rank = Some c" "c \<le> 0"
  shows "remove_card_from_shoe st rank = (Some ValueError, st)"
  using assms by (simp add: remove_card_from_shoe_def)

lemma remove_cards_replicate:
  assumes "rank \<in> set ALL_RANKS"
  shows "shoe_counts st rank = Some c \<Longrightarrow> int k \<le> c \<Longrightarrow>
     fst (remove_cards st (replicate k rank)) = None \<and>
     shoe_counts (snd (remove_cards st (replicate k rank))) = (shoe_counts st)(rank \<mapsto> c - int k)"
proof (induction k arbitrary: st c)
  case 0
  then show ?case by (simp add: map_upd_triv)
next
  case (Suc k)
  from Suc.prems have pos: "0 < c" by simp
  obtain e st' where r: "remove_card_from_shoe st rank = (e, st')" by (cases "remove_card_from_shoe st rank")
  from remove_card_ok[OF assms Suc.prems(1) pos] r
  have e: "e = None" and s: "shoe_counts st' = (shoe_counts st)(rank \<mapsto> c - 1)" by simp_all
  from s have "shoe_counts st' rank = Some (c - 1)" by simp
  moreover from Suc.prems have "int k \<le> c - 1" by simp
  ultimately have "fst (remove_cards st' (replicate k rank)) = None \<and>
     shoe_counts (snd (remove_cards st' (replicate k rank))) = (shoe_counts st')(rank \<mapsto> c - 1 - int k)"
    by (rule Suc.IH)
  then show ?case using r e s by (simp add: diff_diff_eq)
qed

lemma remove_card_nonneg:
  assumes "\<forall>r n. shoe_counts st r = Some n \<longrightarrow> 0 \<le> n"
  shows "\<forall>r n. shoe_counts (snd (remove_card_from_shoe st rank)) r = Some n \<longrightarrow> 0 \<le> n"
  using assms
  by (auto simp: remove_card_from_shoe_def Let_def split: option.splits if_splits)

text \<open>Claim C6. For a shoe and one of the thirteen ranks with count \<open>c\<close>: removing the
  rank \<open>k\<close> times with \<open>c \<ge> k\<close> succeeds and leaves the count \<open>c - k\<close> and every
  other count as it was; removing it at count 0 fails with the card-not-found
  \<open>ValueError\<close> and leaves the whole state unchanged; and a removal never makes a count
  negative.\<close>

theorem remove_card_from_shoe_counts:
  assumes "rank \<in> set ALL_RANKS" and "shoe_counts st rank = Some c"
  shows "(int k \<le> c \<longrightarrow>
            fst (remove_cards st (replicate k rank)) = None \<and>
            shoe_counts (snd (remove_cards st (replicate k rank)))
              = (shoe_counts st)(rank \<mapsto> c - int k))
       \<and> (c = 0 \<longrightarrow> remove_card_from_shoe st rank = (Some ValueError, st))
       \<and> ((\<forall>r n. shoe_counts st r = Some n \<longrightarrow> 0 \<le> n) \<longrightarrow>
            (\<forall>r n. shoe_counts (snd (remove_card_from_shoe st rank)) r = Some n \<longrightarrow> 0 \<le> n))"
  using remove_cards_replicate[OF assms(1) assms(2), of k] remove_card_fail[OF assms(2)]
    remove_card_nonneg[of st rank]
  by blast

theorem remove_card_from_shoe_counts_witness:
  "fst (remove_cards \<lparr>shoe_counts = initialize_shoe_counts 1, running_count = 0\<rparr>
          (replicate 4 ''A'')) = None
   \<and> shoe_counts (snd (remove_cards \<lparr>shoe_counts = initialize_shoe_counts 1, running_count = 0\<rparr>
          (replicate 4 ''A''))) ''A'' = Some 0
   \<and> shoe_counts (snd (remove_cards \<lparr>shoe_counts = initialize_shoe_counts 1, running_count = 0\<rparr>
          (replicate 4 ''A''))) ''K'' = Some 4
   \<and> remove_card_from_shoe \<lparr>shoe_counts = (initialize_shoe_counts 1)(''A'' \<mapsto> 0), running_count = 0\<rparr> ''A''
       = (Some ValueError, \<lparr>shoe_counts = (initialize_shoe_counts 1)(''A'' \<mapsto> 0), running_count = 0\<rparr>)
   \<and> (\<exists>n. shoe_counts (snd (remove_card_from_shoe
          \<lparr>shoe_counts = initialize_shoe_counts 1, running_count = 0\<rparr> ''A'')) ''A'' = Some n \<and> 0 \<le> n)"
proof -
  let ?s = "\<lparr>shoe_counts = initialize_shoe_counts 1, running_count = 0\<rparr>"
  let ?z = "\<lparr>shoe_counts = (initialize_shoe_counts 1)(''A'' \<mapsto> 0), running_count = 0\<rparr>"
  have r: "''A'' \<in> set ALL_RANKS" by (simp add: ALL_RANKS_def)
  have c: "shoe_counts ?s ''A'' = Some 4"
    by (simp add: initialize_shoe_counts_def ALL_RANKS_def)
  have z: "shoe_counts ?z ''A'' = Some 0" by simp
  have nn: "\<forall>r n. shoe_counts ?s r = Some n \<longrightarrow> 0 \<le> n"
    by (auto simp: initialize_shoe_counts_def ALL_RANKS_def split: if_splits)
  from remove_card_from_shoe_counts[OF r c, of 4] nn
  have a: "fst (remove_cards ?s (replicate 4 ''A'')) = None"
    and b: "shoe_counts (snd (remove_cards ?s (replicate 4 ''A''))) = (shoe_counts ?s)(''A'' \<mapsto> 0)"
    and d: "\<forall>r n. shoe_counts (snd (remove_card_from_shoe ?s ''A'')) r = Some n \<longrightarrow> 0 \<le> n"
    by simp_all
  have e: "shoe_counts (snd (remove_card_from_shoe ?s ''A'')) ''A'' = Some 3"
    by (simp add: remove_card_from_shoe_def initialize_shoe_counts_def ALL_RANKS_def COUNTING_SYSTEM_def)
  from remove_card_from_shoe_counts[OF r z, of 0]
  have f: "remove_card_from_shoe ?z ''A'' = (Some ValueError, ?z)" by simp
  from b have "shoe_counts (snd (remove_cards ?s (replicate 4 ''A''))) ''A'' = Some 0"
    and "shoe_counts (snd (remove_cards ?s (replicate 4 ''A''))) ''K'' = Some 4"
    by (simp_all add: initialize_shoe_counts_def ALL_RANKS_def)
  with a f d e show ?thesis by blast
qed

section \<open>The dealer playout: termination and the final total\<close>

lemma pick_mem: "xs \<noteq> [] \<Longrightarrow> pick g xs \<in> set xs"
  by (simp add: pick_def)



lemma dealer_loop_inv:
  "dealer_loop dc ls g = (cards, rest, g') \<Longrightarrow>
   (\<exists>drawn. cards = dc @ drawn \<and> mset drawn + mset rest = mset ls)
   \<and> (DEALER_STAND \<le> hand_value cards \<or> rest = [])"
proof (induction dc ls g rule: dealer_loop.induct)
  case (1 dc ls g)
  show ?case
  proof (cases "hand_value dc < DEALER_STAND \<and> ls \<noteq> []")
    case True
    then have m: "pick g ls \<in> set ls" by (simp add: pick_mem)
    from True have "dealer_loop dc ls g
        = dealer_loop (dc @ [pick g ls]) (remove1 (pick g ls) ls) (advance g)"
      by (subst dealer_loop.simps) simp
    with "1.prems"
    have "dealer_loop (dc @ [pick g ls]) (remove1 (pick g ls) ls) (advance g) = (cards, rest, g')"
      by simp
    from "1.IH"[OF True this] obtain drawn where
      d: "cards = (dc @ [pick g ls]) @ drawn" "mset drawn + mset rest = mset (remove1 (pick g ls) ls)"
      and s: "DEALER_STAND \<le> hand_value cards \<or> rest = []" by blast
    from d(2) m have "mset (pick g ls # drawn) + mset rest = mset ls" by simp
    with d(1) s show ?thesis by (intro conjI exI[of _ "pick g ls # drawn"]) simp_all
  next
    case False
    then have "dealer_loop dc ls g = (dc, ls, g)"
      by (subst dealer_loop.simps) auto
    with "1.prems" have "cards = dc" "rest = ls" by simp_all
    with False show ?thesis by auto
  qed
qed


text \<open>Claim C3. For every upcard, every finite shoe list and every generator the dealer
  playout ends (the loop is a total function: each round takes one card out of the local
  shoe); the number of cards drawn is at most the size of the shoe list, and the final
  total is at least 17 (which includes every bust) unless the local shoe was used up, in
  which case the playout stops at the current total without an error.\<close>

theorem dealer_playout_terminates_standing:
  "(case dealer_playout dealer_card_val shoe_list g of
      (dealer_cards, local_shoe, g') \<Rightarrow>
        length dealer_cards - 1 \<le> length shoe_list
        \<and> length dealer_cards - 1 + length local_shoe
            = length (remove_if_present dealer_card_val shoe_list)
        \<and> (DEALER_STAND \<le> hand_value dealer_cards \<or> local_shoe = [])
        \<and> simulate_dealer_hand_once dealer_card_val shoe_list g
            = (hand_value dealer_cards, g'))"
proof -
  obtain cards rest g' where r: "dealer_playout dealer_card_val shoe_list g = (cards, rest, g')"
    by (cases "dealer_playout dealer_card_val shoe_list g") auto
  then have "dealer_loop [dealer_card_val] (remove_if_present dealer_card_val shoe_list) g
      = (cards, rest, g')"
    by (simp add: dealer_playout_def)
  from dealer_loop_inv[OF this] obtain drawn where
    d: "cards = [dealer_card_val] @ drawn"
       "mset drawn + mset rest = mset (remove_if_present dealer_card_val shoe_list)"
    and s: "DEALER_STAND \<le> hand_value cards \<or> rest = []" by blast
  from d(2) have "size (mset drawn + mset rest) = size (mset (remove_if_present dealer_card_val shoe_list))"
    by simp
  then have len: "length drawn + length rest = length (remove_if_present dealer_card_val shoe_list)"
    by simp
  have "length (remove_if_present dealer_card_val shoe_list) \<le> length shoe_list"
    by (simp add: remove_if_present_def length_remove1)
  with len d(1) s r show ?thesis
    by (simp add: simulate_dealer_hand_once_def)
qed

theorem dealer_playout_witness:
  "hand_value (fst (dealer_playout 5 [2, 3] (\<lambda>i. 0))) = 10
   \<and> fst (snd (dealer_playout 5 [2, 3] (\<lambda>i. 0))) = []
   \<and> fst (simulate_dealer_hand_once 5 [2, 3] (\<lambda>i. 0)) = 10
   \<and> fst (simulate_dealer_hand_once 10 [2, 3, 10, 10, 5] (\<lambda>i. 0)) = 25"
  using dealer_playout_terminates_standing
      [where dealer_card_val = 5 and shoe_list = "[2, 3]" and g = "\<lambda>i. 0"]
  by (simp add: dealer_playout_def simulate_dealer_hand_once_def dealer_loop.simps
      remove_if_present_def pick_def advance_def hand_value_def DEALER_STAND_def)

section \<open>The upcard in the pools of a Hit and a Double Down trial\<close>







section \<open>The dealer of the RNG variant\<close>

lemma is_soft_hand_has_ace: "is_soft_hand h \<Longrightarrow> 11 \<in> set h"
proof -
  assume "is_soft_hand h"
  then have "0 < snd (ace_loop (sum_list h) (count_list h 11))" by (simp add: is_soft_hand_def)
  with ace_loop_snd_le[of "sum_list h" "count_list h 11"] have "count_list h 11 \<noteq> 0" by simp
  then show ?thesis by (simp add: count_list_0_iff)
qed

lemma pick_DECK: "pick g DECK \<in> set DECK"
  unfolding pick_def by (rule nth_mem) (simp add: DECK_def)

text \<open>Claim C4, as amended. In the RNG variant the dealer draws whenever the total is
  below 17 or is a soft 17, and stands whenever the total is above 17 or is a 17 with no
  card 11 in the hand; each draw is the entry of the fixed 13-card \<open>DECK\<close> that the
  generator selects, and \<open>DECK\<close> is a constant: nothing is taken out of it.\<close>

theorem rng_dealer_draws_from_fixed_deck:
  "((hand_value dealer_hand < 17 \<or> (hand_value dealer_hand = 17 \<and> is_soft_hand dealer_hand))
      \<longrightarrow> simulate_dealer_hand dealer_hand g
          = simulate_dealer_hand (dealer_hand @ [pick g DECK]) (advance g))
   \<and> ((hand_value dealer_hand > 17 \<or> (hand_value dealer_hand = 17 \<and> 11 \<notin> set dealer_hand))
      \<longrightarrow> simulate_dealer_hand dealer_hand g = (dealer_hand, g))
   \<and> pick g DECK \<in> set DECK
   \<and> simulate_dealer_hand_total dealer_hand g
       = (hand_value (fst (simulate_dealer_hand dealer_hand g)),
          snd (simulate_dealer_hand dealer_hand g))"
proof (intro conjI impI)
  assume "hand_value dealer_hand < 17 \<or> (hand_value dealer_hand = 17 \<and> is_soft_hand dealer_hand)"
  then have "dealer_draws_again dealer_hand"
    using is_soft_hand_has_ace[of dealer_hand]
    by (auto simp: dealer_draws_again_def DEALER_STAND_def)
  then show "simulate_dealer_hand dealer_hand g
      = simulate_dealer_hand (dealer_hand @ [pick g DECK]) (advance g)"
    by (subst simulate_dealer_hand.simps) simp
next
  assume "hand_value dealer_hand > 17 \<or> (hand_value dealer_hand = 17 \<and> 11 \<notin> set dealer_hand)"
  then have "\<not> dealer_draws_again dealer_hand"
    by (auto simp: dealer_draws_again_def DEALER_STAND_def)
  then show "simulate_dealer_hand dealer_hand g = (dealer_hand, g)"
    by (subst simulate_dealer_hand.simps) simp
next
  show "pick g DECK \<in> set DECK" by (rule pick_DECK)
next
  show "simulate_dealer_hand_total dealer_hand g
       = (hand_value (fst (simulate_dealer_hand dealer_hand g)),
          snd (simulate_dealer_hand dealer_hand g))"
    by (simp add: simulate_dealer_hand_total_def split: prod.splits)
qed

theorem rng_dealer_draws_witness:
  "hand_value [11, 6] = 17 \<and> is_soft_hand [11, 6]
   \<and> simulate_dealer_hand [11, 6] (\<lambda>i. 2) = ([11, 6, 4], \<lambda>i. 2)
   \<and> hand_value [10, 7] = 17 \<and> 11 \<notin> set [10 :: int, 7]
   \<and> simulate_dealer_hand [10, 7] (\<lambda>i. 2) = ([10, 7], \<lambda>i. 2)"
proof -
  have a: "hand_value [11, 6] = 17" "is_soft_hand [11, 6]" "hand_value [10, 7] = 17"
    "hand_value [11, 6, 4] = 21"
    by (simp_all add: hand_value_def is_soft_hand_def)
  have p: "pick (\<lambda>i. 2) DECK = 4" "advance (\<lambda>i. 2 :: nat) = (\<lambda>i. 2)"
    by (simp_all add: pick_def DECK_def advance_def)
  from rng_dealer_draws_from_fixed_deck[of "[11, 6, 4]" "\<lambda>i. 2"] a
  have "simulate_dealer_hand [11, 6, 4] (\<lambda>i. 2) = ([11, 6, 4], \<lambda>i. 2)" by simp
  with rng_dealer_draws_from_fixed_deck[of "[11, 6]" "\<lambda>i. 2"] a p
  have b: "simulate_dealer_hand [11, 6] (\<lambda>i. 2) = ([11, 6, 4], \<lambda>i. 2)" by simp
  from rng_dealer_draws_from_fixed_deck[of "[10, 7]" "\<lambda>i. 2"] a
  have c: "simulate_dealer_hand [10, 7] (\<lambda>i. 2) = ([10, 7], \<lambda>i. 2)" by simp
  from a b c show ?thesis by simp
qed

text \<open>Claim C4 as stated fails: the draws are not without replacement from a shoe
  snapshot. From the hand 2 and a generator that always selects the first entry, the
  dealer draws eight more twos out of a \<open>DECK\<close> that holds one.\<close>

theorem rng_dealer_draws_with_replacement:
  "fst (simulate_dealer_hand [2] (\<lambda>i. 0)) = [2, 2, 2, 2, 2, 2, 2, 2, 2]
   \<and> count_list DECK 2 = 1
   \<and> count_list (tl (fst (simulate_dealer_hand [2] (\<lambda>i. 0)))) 2 = 8"
  by (simp add: simulate_dealer_hand.simps dealer_draws_again_def hand_value_def
      pick_def advance_def DECK_def DEALER_STAND_def)

text \<open>The loop tests \<open>11 in dealer_hand\<close>, not softness: a hard 17 whose ace has been
  reduced to 1 still holds a card 11, and the dealer draws on it.\<close>

lemma rng_dealer_hits_reduced_ace_17:
  "hand_value [11, 6, 10] = 17 \<and> \<not> is_soft_hand [11, 6, 10] \<and> dealer_draws_again [11, 6, 10]"
  by (simp add: hand_value_def is_soft_hand_def dealer_draws_again_def DEALER_STAND_def)

section \<open>Ranking the actions\<close>

lemma legal_actions_cases:
  "legal_actions pc ft sh = [''Stand'', ''Hit'']
   \<or> legal_actions pc ft sh = [''Stand'', ''Hit'', ''Double Down'']
   \<or> legal_actions pc ft sh = [''Stand'', ''Hit'', ''Split'']
   \<or> legal_actions pc ft sh = [''Stand'', ''Hit'', ''Double Down'', ''Split'']"
  by (simp add: legal_actions_def)

lemma legal_actions_shape:
  "2 \<le> length (legal_actions pc ft sh) \<and> distinct (legal_actions pc ft sh)
   \<and> sorted (map priority (legal_actions pc ft sh))"
  using legal_actions_cases[of pc ft sh] by (auto simp: priority_def)

lemma evaluate_actions_keys:
  "evaluate_actions pc d sc actions g clock = Inr (evs, g', clock') \<Longrightarrow> map fst evs = actions"
  by (induction actions arbitrary: evs g clock g' clock')
     (auto split: sum.splits prod.splits)

lemma rank_actions_two:
  assumes "sort_key (\<lambda>x. - snd x) evs = x # y # rest"
  shows "rank_actions evs = Inr (fst x, Some (fst y), snd x - snd y)"
  using assms by (simp add: rank_actions_def)

lemma rank_actions_single: "rank_actions [(a, e)] = Inr (a, None, 0)"
  by (simp add: rank_actions_def)

lemma hd_filter_least:
  assumes "sorted (map p xs)" and "filter P xs = x # F" and "z \<in> set xs" and "P z"
  shows "p x \<le> p z"
proof -
  from assms(1) have "sorted (map p (filter P xs))" by (rule sorted_filter)
  with assms(2) have s: "\<forall>v\<in>set F. p x \<le> p v" by simp
  from assms(3,4) have "z \<in> set (filter P xs)" by simp
  with assms(2) have "z = x \<or> z \<in> set F" by simp
  with s show ?thesis by auto
qed

text \<open>Lines 454-457 on the EVs of the legal actions: the first entry of the sorted list
  has the highest EV and, among entries of that EV, the earliest place in the priority
  order; the second has the highest EV among the others.\<close>

lemma rank_actions_best_and_runner_up:
  assumes "map fst evs = legal_actions player_cards is_first_turn is_split_hand"
  shows "(\<exists>best second e1 e2.
            rank_actions evs = Inr (best, Some second, e1 - e2)
            \<and> (best, e1) \<in> set evs \<and> (second, e2) \<in> set evs \<and> second \<noteq> best
            \<and> (\<forall>(a, e) \<in> set evs. e \<le> e1 \<and> (e = e1 \<longrightarrow> priority best \<le> priority a))
            \<and> (\<forall>(a, e) \<in> set evs. a \<noteq> best \<longrightarrow> e \<le> e2))
         \<and> rank_actions [(a0, e0)] = Inr (a0, None, 0)"
proof -
  let ?f = "\<lambda>x :: string \<times> rat. - snd x"
  let ?s = "sort_key ?f evs"
  from legal_actions_shape[of player_cards is_first_turn is_split_hand] assms
  have len: "2 \<le> length evs" and dis: "distinct (map fst evs)"
    and pri: "sorted (map (priority \<circ> fst) evs)"
    by (simp_all flip: map_map length_map[of fst evs])
  from len have "2 \<le> length ?s" by simp
  then obtain x y rest where s: "?s = x # y # rest"
    by (cases ?s; cases "tl ?s") auto
  have srt: "sorted (map ?f ?s)" by (rule sorted_sort_key)
  have set_s: "set ?s = set evs" by simp
  have "mset (map fst ?s) = mset (map fst evs)" by simp
  then have "distinct (map fst ?s)" using dis by (metis mset_eq_imp_distinct_iff)
  with s have ne: "fst y \<noteq> fst x" and x_out: "fst x \<notin> fst ` set (y # rest)" by auto
  from s set_s have xin: "x \<in> set evs" and yin: "y \<in> set evs" by auto
  from srt s have ge_x: "\<forall>z\<in>set (y # rest). ?f x \<le> ?f z" and ge_y: "\<forall>z\<in>set rest. ?f y \<le> ?f z"
    by simp_all
  have best_max: "snd z \<le> snd x" if "z \<in> set evs" for z
  proof -
    from that set_s s have "z = x \<or> z \<in> set (y # rest)" by auto
    with ge_x show ?thesis by auto
  qed
  have second_max: "snd z \<le> snd y" if "z \<in> set evs" "fst z \<noteq> fst x" for z
  proof -
    from that set_s s have "z = y \<or> z \<in> set rest" by auto
    with ge_y show ?thesis by auto
  qed
  have "filter (\<lambda>v. ?f v = ?f x) ?s = filter (\<lambda>v. ?f v = ?f x) evs" by (rule sort_key_stable)
  with s have fil: "filter (\<lambda>v. ?f v = ?f x) evs = x # filter (\<lambda>v. ?f v = ?f x) (y # rest)"
    by simp
  have tie: "priority (fst x) \<le> priority (fst z)" if "z \<in> set evs" "snd z = snd x" for z
    using hd_filter_least[of "priority \<circ> fst" evs "\<lambda>v. ?f v = ?f x" x _ z, OF pri fil that(1)] that(2)
    by simp
  have r: "rank_actions evs = Inr (fst x, Some (fst y), snd x - snd y)"
    using s by (rule rank_actions_two)
  have "rank_actions evs = Inr (fst x, Some (fst y), snd x - snd y)
      \<and> (fst x, snd x) \<in> set evs \<and> (fst y, snd y) \<in> set evs \<and> fst y \<noteq> fst x
      \<and> (\<forall>(a, e) \<in> set evs. e \<le> snd x \<and> (e = snd x \<longrightarrow> priority (fst x) \<le> priority a))
      \<and> (\<forall>(a, e) \<in> set evs. a \<noteq> fst x \<longrightarrow> e \<le> snd y)"
    using r xin yin ne best_max tie second_max by fastforce
  then show ?thesis using rank_actions_single by blast
qed

section \<open>The estimator: chunks, checkpoints and the final EV\<close>

lemma trials_loop_payoffs:
  "trials_loop trial n acc g
     = map_sum id (\<lambda>(rs, g'). (acc + sum_list rs, g')) (trial_payoffs trial n g)"
  by (induction n arbitrary: acc g) (auto split: sum.splits)

lemma trial_payoffs_add:
  "trial_payoffs trial (m + n) g =
     (case trial_payoffs trial m g of
        Inl e \<Rightarrow> Inl e
      | Inr (rs, g') \<Rightarrow>
          (case trial_payoffs trial n g' of
             Inl e \<Rightarrow> Inl e
           | Inr (rs', g'') \<Rightarrow> Inr (rs @ rs', g'')))"
  by (induction m arbitrary: g) (auto split: sum.splits)

lemma trial_payoffs_length:
  "trial_payoffs trial n g = Inr (rs, g') \<Longrightarrow> length rs = n"
  by (induction n arbitrary: g rs g') (auto split: sum.splits)

lemma trial_payoffs_total:
  assumes "\<And>g. \<exists>r g'. trial g = Inr (r, g')"
  shows "\<exists>rs g'. trial_payoffs trial n g = Inr (rs, g')"
proof (induction n arbitrary: g)
  case 0
  show ?case by simp
next
  case (Suc n)
  from assms obtain r g1 where t: "trial g = Inr (r, g1)" by blast
  from Suc[of g1] obtain rs g2 where "trial_payoffs trial n g1 = Inr (rs, g2)" by blast
  with t show ?case by simp
qed

lemma checkpoint_loop_payoffs:
  assumes c: "0 < c"
    and chunk: "\<And>g. chunk g = map_sum id (\<lambda>(rs, g'). (sum_list rs, g')) (trial_payoffs trial c g)"
  shows "trial_payoffs trial (m * c) g = Inr (rs, g') \<Longrightarrow>
     checkpoint_loop chunk c [k..<k + m] ev cps g
       = Inr (ev + sum_list rs,
              cps @ map (\<lambda>j. of_int (ev + sum_list (take ((j + 1) * c) rs))
                           / of_nat ((k + j + 1) * c)) [0..<m],
              g')"
proof (induction m arbitrary: k ev cps g rs)
  case 0
  then show ?case by simp
next
  case (Suc m)
  have "trial_payoffs trial (Suc m * c) g = trial_payoffs trial (c + m * c) g" by simp
  with Suc.prems obtain rs1 g1 rs2 where
    r1: "trial_payoffs trial c g = Inr (rs1, g1)"
    and r2: "trial_payoffs trial (m * c) g1 = Inr (rs2, g')"
    and rs: "rs = rs1 @ rs2"
    by (auto simp: trial_payoffs_add simp del: mult_Suc split: sum.splits)
  from r1 have l1: "length rs1 = c" by (rule trial_payoffs_length)
  from r1 have ch: "chunk g = Inr (sum_list rs1, g1)" by (simp add: chunk)
  have up: "[k..<k + Suc m] = k # [Suc k..<Suc k + m]" by (simp add: upt_conv_Cons)
  have nz: "(k + 1) * c \<noteq> 0" using c by simp
  define F where "F = (\<lambda>j. of_int (ev + sum_list (take ((j + 1) * c) rs))
                / (of_nat ((k + j + 1) * c) :: rat))"
  define G where "G = (\<lambda>j. of_int (ev + sum_list rs1 + sum_list (take ((j + 1) * c) rs2))
                / (of_nat ((Suc k + j + 1) * c) :: rat))"
  have F0: "F 0 = of_int (ev + sum_list rs1) / of_nat ((k + 1) * c)"
    unfolding F_def rs using l1 by simp
  have FS: "F (Suc j) = G j" for j
  proof -
    have "(Suc j + 1) * c = length rs1 + (j + 1) * c" using l1 by simp
    then have "take ((Suc j + 1) * c) (rs1 @ rs2) = rs1 @ take ((j + 1) * c) rs2"
      by (simp only: take_append take_all_iff diff_add_inverse) simp
    then show ?thesis unfolding F_def G_def rs by (simp add: add.assoc)
  qed
  have "map F [0..<Suc m] = F 0 # map (\<lambda>j. F (Suc j)) [0..<m]"
    by (simp add: upt_conv_Cons map_Suc_upt[symmetric] comp_def del: upt_Suc)
  then have m: "map F [0..<Suc m] = (of_int (ev + sum_list rs1) / of_nat ((k + 1) * c)) # map G [0..<m]"
    by (simp add: F0 FS)
  have "checkpoint_loop chunk c [k..<k + Suc m] ev cps g
      = checkpoint_loop chunk c [Suc k..<Suc k + m] (ev + sum_list rs1)
          (cps @ [of_int (ev + sum_list rs1) / of_nat ((k + 1) * c)]) g1"
    unfolding up using ch c by simp
  also have "\<dots> = Inr (ev + sum_list rs1 + sum_list rs2,
      (cps @ [of_int (ev + sum_list rs1) / of_nat ((k + 1) * c)]) @ map G [0..<m], g')"
    unfolding G_def by (rule Suc.IH[OF r2])
  also have "\<dots> = Inr (ev + sum_list rs, cps @ map F [0..<Suc m], g')"
    unfolding m rs by simp
  finally show ?case unfolding F_def .
qed

lemma stand_like_step_acc:
  "stand_like_step pt soft acc d = acc + stand_like_step pt soft 0 d"
  by (simp add: stand_like_step_def Let_def)

lemma foldl_stand_like_step:
  "foldl (stand_like_step pt soft) acc ts = acc + sum_list (map (stand_like_step pt soft 0) ts)"
proof (induction ts arbitrary: acc)
  case Nil
  show ?case by simp
next
  case (Cons t ts)
  have "foldl (stand_like_step pt soft) acc (t # ts)
      = stand_like_step pt soft acc t + sum_list (map (stand_like_step pt soft 0) ts)"
    by (simp add: Cons.IH)
  also have "stand_like_step pt soft acc t = acc + stand_like_step pt soft 0 t"
    by (rule stand_like_step_acc)
  finally show ?case by simp
qed

lemma process_results_sum:
  "process_results_for_stand_like pt ts soft = sum_list (map (stand_payoff pt soft) ts)"
proof (cases "pt > BLACKJACK")
  case True
  from True have "sum_list (map (stand_payoff pt soft) ts) = - int (length ts)"
    by (induction ts) (simp_all add: stand_payoff_def)
  with True show ?thesis
    by (simp add: process_results_for_stand_like_def)
next
  case False
  then have "stand_payoff pt soft = stand_like_step pt soft 0"
    by (simp add: stand_payoff_def fun_eq_iff)
  with False show ?thesis
    by (simp add: process_results_for_stand_like_def foldl_stand_like_step)
qed

lemma dealer_hands_loop_payoffs:
  assumes "build_shoe_list sc = Inr sl"
  shows "\<exists>ts g'. dealer_hands_loop d sl n acc g = (acc @ ts, g')
     \<and> trial_payoffs (stand_trial pc d sc) n g
         = Inr (map (stand_payoff (hand_value pc) (is_soft_hand pc)) ts, g')"
proof (induction n arbitrary: acc g)
  case 0
  show ?case by simp
next
  case (Suc n)
  obtain t g1 where o: "simulate_dealer_hand_once d sl g = (t, g1)"
    by (cases "simulate_dealer_hand_once d sl g")
  from Suc[of "acc @ [t]" g1] obtain ts g' where
    l: "dealer_hands_loop d sl n (acc @ [t]) g1 = ((acc @ [t]) @ ts, g')"
    and p: "trial_payoffs (stand_trial pc d sc) n g1
         = Inr (map (stand_payoff (hand_value pc) (is_soft_hand pc)) ts, g')"
    by blast
  have st: "stand_trial pc d sc g
      = Inr (stand_payoff (hand_value pc) (is_soft_hand pc) t, g1)"
    using assms o by (simp add: stand_trial_def)
  show ?case
    using o l p st by (intro exI[of _ "t # ts"] exI[of _ g']) simp
qed

lemma stand_chunk_payoffs:
  assumes "build_shoe_list sc = Inr sl"
  shows "stand_chunk (hand_value pc) (is_soft_hand pc) d sc c g
     = map_sum id (\<lambda>(rs, g'). (sum_list rs, g')) (trial_payoffs (stand_trial pc d sc) c g)"
proof -
  from dealer_hands_loop_payoffs[OF assms, of d c "[]" g pc] obtain ts g' where
    "dealer_hands_loop d sl c [] g = (ts, g')"
    "trial_payoffs (stand_trial pc d sc) c g
         = Inr (map (stand_payoff (hand_value pc) (is_soft_hand pc)) ts, g')"
    by auto
  then show ?thesis
    using assms by (simp add: stand_chunk_def simulate_dealer_hands_def process_results_sum)
qed

lemma action_trial_total:
  assumes "build_shoe_list sc = Inr sl"
  shows "\<exists>r g'. action_trial action pc d sc g = Inr (r, g')"
  using assms
  by (simp add: action_trial_def stand_trial_def hit_trial_def double_trial_def
      split: prod.splits)

lemma action_chunk:
  assumes "build_shoe_list sc = Inr sl"
  shows "stand_chunk (hand_value pc) (is_soft_hand pc) d sc c g
       = map_sum id (\<lambda>(rs, g'). (sum_list rs, g')) (trial_payoffs (action_trial ''Stand'' pc d sc) c g)"
    and "trials_loop (hit_trial pc d sc) c 0 g
       = map_sum id (\<lambda>(rs, g'). (sum_list rs, g')) (trial_payoffs (action_trial ''Hit'' pc d sc) c g)"
    and "trials_loop (double_trial pc d sc) c 0 g
       = map_sum id (\<lambda>(rs, g'). (sum_list rs, g'))
           (trial_payoffs (action_trial ''Double Down'' pc d sc) c g)"
proof -
  have a: "action_trial ''Stand'' pc d sc = stand_trial pc d sc"
    "action_trial ''Hit'' pc d sc = hit_trial pc d sc"
    "action_trial ''Double Down'' pc d sc = double_trial pc d sc"
    by (simp_all add: action_trial_def)
  show "stand_chunk (hand_value pc) (is_soft_hand pc) d sc c g
       = map_sum id (\<lambda>(rs, g'). (sum_list rs, g')) (trial_payoffs (action_trial ''Stand'' pc d sc) c g)"
    unfolding a by (rule stand_chunk_payoffs[OF assms])
  show "trials_loop (hit_trial pc d sc) c 0 g
       = map_sum id (\<lambda>(rs, g'). (sum_list rs, g')) (trial_payoffs (action_trial ''Hit'' pc d sc) c g)"
    unfolding a by (simp add: trials_loop_payoffs)
  show "trials_loop (double_trial pc d sc) c 0 g
       = map_sum id (\<lambda>(rs, g'). (sum_list rs, g'))
           (trial_payoffs (action_trial ''Double Down'' pc d sc) c g)"
    unfolding a by (simp add: trials_loop_payoffs)
qed

lemma checkpoints_from_one:
  "map (\<lambda>j. of_int (0 + sum_list (take ((j + 1) * c) rs)) / (of_nat ((0 + j + 1) * c) :: rat)) [0..<10]
   = map (\<lambda>i. of_int (sum_list (take (i * c) rs)) / of_nat (i * c)) [1..<11]"
proof -
  have "[1..<11] = map Suc [0..<10]" by (simp only: map_Suc_upt) simp
  then show ?thesis by (simp only: map_map comp_def) simp
qed

lemma checkpoint_loop_ten:
  assumes c: "0 < c"
    and ch: "\<And>g. chunk g = map_sum id (\<lambda>(rs, g'). (sum_list rs, g')) (trial_payoffs trial c g)"
    and p: "trial_payoffs trial (10 * c) g = Inr (payoffs, g')"
  shows "checkpoint_loop chunk c [0..<10] 0 [] g
      = Inr (sum_list payoffs,
             map (\<lambda>i. of_int (sum_list (take (i * c) payoffs)) / of_nat (i * c)) [1..<11], g')"
proof -
  have up: "[0..<10] = [0..<0 + 10]" by simp
  show ?thesis
    unfolding up
    by (subst checkpoint_loop_payoffs[OF c ch p]) (simp only: checkpoints_from_one, simp)
qed

lemma run_action_three:
  assumes a: "action \<in> {''Stand'', ''Hit'', ''Double Down''}" and c: "0 < c"
    and b: "build_shoe_list sc = Inr sl"
    and p: "trial_payoffs (action_trial action pc d sc) (10 * c) g = Inr (payoffs, g')"
  shows "run_action pc d sc action c g
     = Inr (of_int (sum_list payoffs),
            map (\<lambda>i. of_int (sum_list (take (i * c) payoffs)) / of_nat (i * c)) [1..<11], g')"
proof -
  from a consider "action = ''Stand''" | "action = ''Hit''" | "action = ''Double Down''" by auto
  then show ?thesis
  proof cases
    case 1
    from p have p1: "trial_payoffs (action_trial ''Stand'' pc d sc) (10 * c) g = Inr (payoffs, g')"
      unfolding 1 .
    show ?thesis unfolding run_action_def 1
      by (simp add: checkpoint_loop_ten[OF c action_chunk(1)[OF b] p1])
  next
    case 2
    from p have p2: "trial_payoffs (action_trial ''Hit'' pc d sc) (10 * c) g = Inr (payoffs, g')"
      unfolding 2 .
    show ?thesis unfolding run_action_def 2
      by (simp add: checkpoint_loop_ten[OF c action_chunk(2)[OF b] p2])
  next
    case 3
    from p have p3: "trial_payoffs (action_trial ''Double Down'' pc d sc) (10 * c) g = Inr (payoffs, g')"
      unfolding 3 .
    show ?thesis unfolding run_action_def 3
      by (simp add: checkpoint_loop_ten[OF c action_chunk(3)[OF b] p3])
  qed
qed

lemma monte_carlo_ev_three:
  assumes a: "action \<in> {''Stand'', ''Hit'', ''Double Down''}" and c: "0 < c"
    and b: "build_shoe_list sc = Inr sl"
  shows "\<exists>payoffs g'.
     trial_payoffs (action_trial action pc d sc) (10 * c) g = Inr (payoffs, g')
     \<and> length payoffs = 10 * c
     \<and> monte_carlo_ev pc d sc action (10 * c) g clock
         = Inr ((of_int (sum_list payoffs) / of_nat (10 * c) * RTP,
                 clock 1 - clock 0,
                 map (\<lambda>i. of_int (sum_list (take (i * c) payoffs)) / of_nat (i * c)) [1..<11]),
                g', advance (advance clock))"
proof -
  from trial_payoffs_total[of "action_trial action pc d sc" "10 * c" g] action_trial_total[OF b]
  obtain payoffs g' where p: "trial_payoffs (action_trial action pc d sc) (10 * c) g = Inr (payoffs, g')"
    by blast
  from p have l: "length payoffs = 10 * c" by (rule trial_payoffs_length)
  from run_action_three[OF a c b p] c
  have "monte_carlo_ev pc d sc action (10 * c) g clock
         = Inr ((of_int (sum_list payoffs) / of_nat (10 * c) * RTP,
                 clock 1 - clock 0,
                 map (\<lambda>i. of_int (sum_list (take (i * c) payoffs)) / of_nat (i * c)) [1..<11]),
                g', advance (advance clock))"
    by (simp add: monte_carlo_ev_def advance_def)
  with p l show ?thesis by blast
qed

lemma split_no_checkpoints:
  "(case monte_carlo_ev pc d sc ''Split'' n g clock of
      Inl e \<Rightarrow> True
    | Inr ((ev, elapsed, cps), w) \<Rightarrow> cps = [])"
  by (auto simp: monte_carlo_ev_def run_action_def Let_def split: sum.splits list.splits if_splits)

lemma split_loop_payoffs:
  assumes chunk: "\<And>g. chunk g = map_sum id (\<lambda>(rs, g'). (sum_list rs, g')) (trial_payoffs trial c g)"
  shows "split_loop chunk ixs acc g
     = map_sum id (\<lambda>(rs, g'). (acc + sum_list rs, g')) (trial_payoffs trial (length ixs * c) g)"
proof (induction ixs arbitrary: acc g)
  case Nil
  show ?case by simp
next
  case (Cons i ixs)
  have len: "length (i # ixs) * c = c + length ixs * c" by simp
  show ?case
  proof (cases "trial_payoffs trial c g")
    case (Inl e)
    then have "chunk g = Inl e" by (simp add: chunk[of g])
    then have "split_loop chunk (i # ixs) acc g = Inl e" by simp
    moreover from Inl have "trial_payoffs trial (c + length ixs * c) g = Inl e"
      by (simp only: trial_payoffs_add) simp
    ultimately show ?thesis unfolding len by simp
  next
    case (Inr p)
    obtain rs1 g1 where p: "p = (rs1, g1)" by (cases p)
    from Inr p have "chunk g = Inr (sum_list rs1, g1)" by (simp add: chunk[of g])
    then have "split_loop chunk (i # ixs) acc g = split_loop chunk ixs (acc + sum_list rs1) g1"
      by simp
    also have "\<dots> = map_sum id (\<lambda>(rs, g'). (acc + sum_list rs1 + sum_list rs, g'))
        (trial_payoffs trial (length ixs * c) g1)"
      by (rule Cons.IH)
    also have "\<dots> = map_sum id (\<lambda>(rs, g'). (acc + sum_list rs, g'))
        (trial_payoffs trial (c + length ixs * c) g)"
      using Inr p by (simp only: trial_payoffs_add) (auto split: sum.splits)
    finally show ?thesis unfolding len .
  qed
qed

lemma monte_carlo_ev_split:
  "monte_carlo_ev (split_card_val # rest) d sc ''Split'' n g clock =
     (case trial_payoffs (split_trial split_card_val d sc) (10 * (n div 10)) g of
        Inl e \<Rightarrow> Inl e
      | Inr (payoffs, g') \<Rightarrow>
          if n div 10 = 0 then Inl ZeroDivisionError
          else Inr ((of_int (sum_list payoffs) / of_nat (10 * (n div 10)) / of_nat n * RTP,
                     clock 1 - clock 0, []),
                    g', advance (advance clock)))"
proof -
  have ch: "\<And>g. trials_loop (split_trial split_card_val d sc) (n div 10) 0 g
      = map_sum id (\<lambda>(rs, g'). (sum_list rs, g'))
          (trial_payoffs (split_trial split_card_val d sc) (n div 10) g)"
    by (simp add: trials_loop_payoffs)
  have l: "length [0..<10] * (n div 10) = 10 * (n div 10)" by simp
  note sl = split_loop_payoffs[OF ch, of "[0..<10]" 0 g, unfolded l]
  have n0: "n div 10 \<noteq> 0 \<Longrightarrow> n \<noteq> 0" by auto
  have "run_action (split_card_val # rest) d sc ''Split'' (n div 10) g =
     (case trial_payoffs (split_trial split_card_val d sc) (10 * (n div 10)) g of
        Inl e \<Rightarrow> Inl e
      | Inr (payoffs, g') \<Rightarrow>
          if n div 10 = 0 then Inl ZeroDivisionError
          else Inr (of_int (sum_list payoffs) / of_nat (10 * (n div 10)), [], g'))"
    unfolding run_action_def
    by (simp only: list.case sl) (auto split: sum.splits)
  then show ?thesis
    unfolding monte_carlo_ev_def Let_def
    using n0 by (auto simp: advance_def split: sum.splits)
qed

text \<open>Claim C5, as amended. For Stand, Hit and Double Down, a trial count \<open>N = 10 * c\<close>
  with \<open>c > 0\<close> and a shoe holding all thirteen ranks, the estimator returns a trace of
  exactly 10 entries, the \<open>i\<close>-th (from 1) being the sum of the payoffs of the first
  \<open>i * c\<close> trials divided by \<open>i * c\<close>. For Split the returned trace is empty, whatever
  the trial count.\<close>

theorem checkpoint_means_three_actions:
  assumes "action \<in> {''Stand'', ''Hit'', ''Double Down''}" and "0 < c"
    and "build_shoe_list sc = Inr shoe_list"
  shows "(\<exists>payoffs ev elapsed g' clock'.
            trial_payoffs (action_trial action player_cards dealer_card_val sc) (10 * c) g
              = Inr (payoffs, g')
            \<and> length payoffs = 10 * c
            \<and> monte_carlo_ev player_cards dealer_card_val sc action (10 * c) g clock
              = Inr ((ev, elapsed,
                      map (\<lambda>i. of_int (sum_list (take (i * c) payoffs)) / of_nat (i * c))
                        [1..<11]),
                     g', clock')
            \<and> length (map (\<lambda>i. of_int (sum_list (take (i * c) payoffs)) / (of_nat (i * c) :: rat))
                        [1..<11]) = 10)
       \<and> (case monte_carlo_ev player_cards dealer_card_val sc ''Split'' n g clock of
             Inl e \<Rightarrow> True
           | Inr ((ev, elapsed, checkpoint_means), w) \<Rightarrow> checkpoint_means = [])"
proof -
  from monte_carlo_ev_three[OF assms, of player_cards dealer_card_val g clock]
  obtain payoffs g' where
    "trial_payoffs (action_trial action player_cards dealer_card_val sc) (10 * c) g
       = Inr (payoffs, g')"
    "length payoffs = 10 * c"
    "monte_carlo_ev player_cards dealer_card_val sc action (10 * c) g clock
         = Inr ((of_int (sum_list payoffs) / of_nat (10 * c) * RTP,
                 clock 1 - clock 0,
                 map (\<lambda>i. of_int (sum_list (take (i * c) payoffs)) / of_nat (i * c)) [1..<11]),
                g', advance (advance clock))"
    by blast
  then have "\<exists>payoffs ev elapsed g' clock'.
            trial_payoffs (action_trial action player_cards dealer_card_val sc) (10 * c) g
              = Inr (payoffs, g')
            \<and> length payoffs = 10 * c
            \<and> monte_carlo_ev player_cards dealer_card_val sc action (10 * c) g clock
              = Inr ((ev, elapsed,
                      map (\<lambda>i. of_int (sum_list (take (i * c) payoffs)) / of_nat (i * c))
                        [1..<11]),
                     g', clock')
            \<and> length (map (\<lambda>i. of_int (sum_list (take (i * c) payoffs)) / (of_nat (i * c) :: rat))
                        [1..<11]) = 10"
    by (intro exI[of _ payoffs] exI[of _ g'] exI[of _ "clock 1 - clock 0"]
        exI[of _ "advance (advance clock)"]
        exI[of _ "of_int (sum_list payoffs) / of_nat (10 * c) * RTP"]) simp
  with split_no_checkpoints[of player_cards dealer_card_val sc n g clock]
  show ?thesis by (rule conjI[rotated])
qed

lemma example_shoe_list:
  "build_shoe_list example_shoe
     = Inr ([2, 2, 2, 2, 3, 3, 3, 3, 4, 4, 4, 4, 5, 5, 5, 5] @ [6, 6, 6, 6, 7, 7, 7, 7, 8, 8]
            @ [9, 9, 9, 9] @ replicate 15 10 @ [11, 11, 11, 11])"
  by code_simp

lemma example_hit_trace:
  "map_sum id (\<lambda>r. snd (snd (fst r)))
     (monte_carlo_ev [8, 8] 10 example_shoe ''Hit'' 10 (\<lambda>i. i * 7 + 3) (\<lambda>i. of_nat i))
   = Inr [- 1, - 1, - 1, - 1, - 1, - (2 / 3), - (5 / 7), - (3 / 4), - (5 / 9), - (3 / 5)]"
  by code_simp

theorem checkpoint_means_witness:
  "(\<exists>payoffs g'.
      trial_payoffs (action_trial ''Hit'' [8, 8] 10 example_shoe) 10 (\<lambda>i. i * 7 + 3)
        = Inr (payoffs, g')
      \<and> length payoffs = 10
      \<and> map (\<lambda>i. of_int (sum_list (take i payoffs)) / of_nat i) [1..<11]
        = [- 1, - 1, - 1, - 1, - 1, - (2 / 3), - (5 / 7), - (3 / 4), - (5 / 9), - (3 / 5 :: rat)])
   \<and> map_sum id (\<lambda>r. snd (snd (fst r)))
       (monte_carlo_ev [8, 8] 10 example_shoe ''Hit'' 10 (\<lambda>i. i * 7 + 3) (\<lambda>i. of_nat i))
     = Inr [- 1, - 1, - 1, - 1, - 1, - (2 / 3), - (5 / 7), - (3 / 4), - (5 / 9), - (3 / 5)]"
proof -
  have a: "''Hit'' \<in> {''Stand'', ''Hit'', ''Double Down''}" by simp
  have c: "0 < (1 :: nat)" by simp
  from checkpoint_means_three_actions[OF a c example_shoe_list,
      of "[8, 8]" 10 "\<lambda>i. i * 7 + 3" "\<lambda>i. of_nat i", unfolded mult_1_right]
  obtain payoffs ev elapsed g' clock' where
    p: "trial_payoffs (action_trial ''Hit'' [8, 8] 10 example_shoe) 10 (\<lambda>i. i * 7 + 3)
          = Inr (payoffs, g')"
    and l: "length payoffs = 10"
    and m: "monte_carlo_ev [8, 8] 10 example_shoe ''Hit'' 10 (\<lambda>i. i * 7 + 3) (\<lambda>i. of_nat i)
          = Inr ((ev, elapsed,
                  map (\<lambda>i. of_int (sum_list (take i payoffs)) / of_nat i) [1..<11]),
                 g', clock')"
    by blast
  from example_hit_trace
  have h: "map (\<lambda>i. of_int (sum_list (take i payoffs)) / of_nat i) [1..<11]
        = [- 1, - 1, - 1, - 1, - 1, - (2 / 3), - (5 / 7), - (3 / 4), - (5 / 9), - (3 / 5 :: rat)]"
    unfolding m by (simp only: map_sum.simps fst_conv snd_conv sum.inject)
  from p l h have "\<exists>payoffs g'.
      trial_payoffs (action_trial ''Hit'' [8, 8] 10 example_shoe) 10 (\<lambda>i. i * 7 + 3)
        = Inr (payoffs, g')
      \<and> length payoffs = 10
      \<and> map (\<lambda>i. of_int (sum_list (take i payoffs)) / of_nat i) [1..<11]
        = [- 1, - 1, - 1, - 1, - 1, - (2 / 3), - (5 / 7), - (3 / 4), - (5 / 9), - (3 / 5 :: rat)]"
    by - (intro exI[of _ payoffs] exI[of _ g'] conjI, assumption+)
  then show ?thesis using example_hit_trace by (rule conjI)
qed

lemma example_split_payoffs:
  "map_sum id fst (trial_payoffs (split_trial 8 10 example_shoe) 10 (\<lambda>i. i * 7 + 3))
     = Inr [0, - 2, - 2, - 1, 0, 0, 0, 0, - 2, - 2]"
  by code_simp

lemma example_split_run:
  "\<exists>g'. monte_carlo_ev [8, 8] 10 example_shoe ''Split'' 10 (\<lambda>i. i * 7 + 3) (\<lambda>i. of_nat i)
     = Inr ((of_int (sum_list [0, - 2, - 2, - 1, 0, 0, 0, 0, - 2, - 2]) / 10 / 10 * RTP, 1, []),
            g', advance (advance (\<lambda>i. of_nat i)))"
proof -
  from example_split_payoffs obtain g' where
    "trial_payoffs (split_trial 8 10 example_shoe) 10 (\<lambda>i. i * 7 + 3)
       = Inr ([0, - 2, - 2, - 1, 0, 0, 0, 0, - 2, - 2], g')"
    by (cases "trial_payoffs (split_trial 8 10 example_shoe) 10 (\<lambda>i. i * 7 + 3)") auto
  then show ?thesis
    by (simp add: monte_carlo_ev_split)
qed

text \<open>Claim C5 as stated fails for Split: a run of 10 Split trials returns no
  checkpoint at all.\<close>

theorem split_trace_is_empty:
  "map_sum id (\<lambda>r. snd (snd (fst r)))
     (monte_carlo_ev [8, 8] 10 example_shoe ''Split'' 10 (\<lambda>i. i * 7 + 3) (\<lambda>i. of_nat i))
   = Inr []
   \<and> length ([] :: rat list) \<noteq> 10"
proof -
  from example_split_run obtain g' where
    r: "monte_carlo_ev [8, 8] 10 example_shoe ''Split'' 10 (\<lambda>i. i * 7 + 3) (\<lambda>i. of_nat i)
     = Inr ((of_int (sum_list [0, - 2, - 2, - 1, 0, 0, 0, 0, - 2, - 2]) / 10 / 10 * RTP, 1, []),
            g', advance (advance (\<lambda>i. of_nat i)))" ..
  show ?thesis by (simp only: r map_sum.simps fst_conv snd_conv) simp
qed

text \<open>Claim C1 at a Split run of \<open>N = 10\<close> trials: the ten per-trial payoffs (each the
  sum of the two sub-hand results) add up to -9, so the claimed EV is
  \<open>-9 / 10 * RTP = -1791/2000\<close>; the estimator returns \<open>-1791/20000\<close>, the sum divided
  by \<open>N\<close> twice (line 405, then line 410).\<close>

theorem split_ev_divided_twice:
  "map_sum id fst (trial_payoffs (split_trial 8 10 example_shoe) 10 (\<lambda>i. i * 7 + 3))
     = Inr [0, - 2, - 2, - 1, 0, 0, 0, 0, - 2, - 2]
   \<and> map_sum id (\<lambda>r. fst (fst r))
       (monte_carlo_ev [8, 8] 10 example_shoe ''Split'' 10 (\<lambda>i. i * 7 + 3) (\<lambda>i. of_nat i))
     = Inr (- (1791 / 20000))
   \<and> of_int (sum_list [0, - 2, - 2, - 1, 0, 0, 0, 0, - 2, - 2]) / of_nat 10 * RTP
     = - (1791 / 2000)
   \<and> of_int (sum_list [0, - 2, - 2, - 1, 0, 0, 0, 0, - 2, - 2]) / of_nat 10 / of_nat 10 * RTP
     = - (1791 / 20000)"
proof -
  from example_split_run obtain g' where
    r: "monte_carlo_ev [8, 8] 10 example_shoe ''Split'' 10 (\<lambda>i. i * 7 + 3) (\<lambda>i. of_nat i)
     = Inr ((of_int (sum_list [0, - 2, - 2, - 1, 0, 0, 0, 0, - 2, - 2]) / 10 / 10 * RTP, 1, []),
            g', advance (advance (\<lambda>i. of_nat i)))" ..
  have v: "of_int (sum_list [0, - 2, - 2, - 1, 0, 0, 0, 0, - 2, - 2]) / 10 / 10 * RTP
      = - (1791 / 20000)"
    by (simp add: RTP_def)
  have w: "of_int (sum_list [0, - 2, - 2, - 1, 0, 0, 0, 0, - 2, - 2]) / of_nat 10 * RTP
      = - (1791 / 2000)"
    by (simp add: RTP_def)
  have u: "of_int (sum_list [0, - 2, - 2, - 1, 0, 0, 0, 0, - 2, - 2]) / of_nat 10 / of_nat 10 * RTP
      = - (1791 / 20000)"
    by (simp add: RTP_def)
  have "map_sum id (\<lambda>r. fst (fst r))
       (monte_carlo_ev [8, 8] 10 example_shoe ''Split'' 10 (\<lambda>i. i * 7 + 3) (\<lambda>i. of_nat i))
     = Inr (- (1791 / 20000))"
    by (simp only: r map_sum.simps fst_conv v)
  with example_split_payoffs w u show ?thesis by (intro conjI)
qed

section \<open>The estimator reads a finite prefix of the random stream\<close>

lemma agree_refl: "agree k g g"
  by (simp add: agree_def)

lemma agree_split:
  assumes "agree (k + m) g g2"
  shows "agree k g g2" and "agree m (drop_draws k g) (drop_draws k g2)"
  using assms by (simp_all add: agree_def drop_draws_def)

lemma drop_drop: "drop_draws m (drop_draws k g) = drop_draws (k + m) g"
  by (simp add: drop_draws_def add.assoc)

lemma drop_draws_0: "drop_draws 0 g = g"
  by (simp add: drop_draws_def)

lemma advance_drop: "advance g = drop_draws 1 g"
  by (simp add: advance_def drop_draws_def)

lemma pick_agree: "agree (1 + k) g g2 \<Longrightarrow> pick g2 xs = pick g xs"
  by (simp add: agree_def pick_def)

lemma dealer_loop_reads:
  "\<exists>k cards rest. \<forall>g2. agree k g g2 \<longrightarrow> dealer_loop dc ls g2 = (cards, rest, drop_draws k g2)"
proof (induction dc ls g rule: dealer_loop.induct)
  case (1 dc ls g)
  show ?case
  proof (cases "hand_value dc < DEALER_STAND \<and> ls \<noteq> []")
    case False
    then have "dealer_loop dc ls g2 = (dc, ls, drop_draws 0 g2)" for g2
      by (subst dealer_loop.simps) (auto simp: drop_draws_0)
    then show ?thesis by blast
  next
    case True
    from "1.IH"[OF True] obtain k cards rest where
      ih: "\<And>g2. agree k (advance g) g2 \<Longrightarrow>
        dealer_loop (dc @ [pick g ls]) (remove1 (pick g ls) ls) g2 = (cards, rest, drop_draws k g2)"
      by blast
    have "dealer_loop dc ls g2 = (cards, rest, drop_draws (1 + k) g2)" if a: "agree (1 + k) g g2" for g2
    proof -
      from a have p: "pick g2 ls = pick g ls" by (rule pick_agree)
      from agree_split(2)[OF a] have "agree k (advance g) (advance g2)" by (simp add: advance_drop)
      from ih[OF this] have "dealer_loop (dc @ [pick g ls]) (remove1 (pick g ls) ls) (advance g2)
          = (cards, rest, drop_draws (1 + k) g2)"
        by (simp add: advance_drop drop_drop)
      with True p show ?thesis by (subst dealer_loop.simps) simp
    qed
    then show ?thesis by blast
  qed
qed

lemma simulate_dealer_hand_once_reads:
  "\<exists>k t. \<forall>g2. agree k g g2 \<longrightarrow> simulate_dealer_hand_once d sl g2 = (t, drop_draws k g2)"
proof -
  from dealer_loop_reads[of g "[d]" "remove_if_present d sl"] obtain k cards rest where
    "\<And>g2. agree k g g2 \<Longrightarrow>
       dealer_loop [d] (remove_if_present d sl) g2 = (cards, rest, drop_draws k g2)"
    by blast
  then have "\<forall>g2. agree k g g2 \<longrightarrow>
      simulate_dealer_hand_once d sl g2 = (hand_value cards, drop_draws k g2)"
    by (simp add: simulate_dealer_hand_once_def dealer_playout_def)
  then show ?thesis by blast
qed

lemma play_out_hand_reads:
  "\<exists>k tmp rest. \<forall>g2. agree k g g2 \<longrightarrow> play_out_hand pc ld g2 = (tmp, rest, drop_draws k g2)"
proof (induction pc ld g rule: play_out_hand.induct)
  case (1 pc ld g)
  show ?case
  proof (cases "hand_value pc \<ge> 17 \<or> ld = []")
    case True
    then have "play_out_hand pc ld g2 = (pc, ld, drop_draws 0 g2)" for g2
      by (subst play_out_hand.simps) (auto simp: drop_draws_0)
    then show ?thesis by blast
  next
    case False
    show ?thesis
    proof (cases "hand_value (pc @ [pick g ld]) > 21")
      case True
      have "play_out_hand pc ld g2
          = (pc @ [pick g ld], remove1 (pick g ld) ld, drop_draws (1 + 0) g2)"
        if a: "agree (1 + 0) g g2" for g2
      proof -
        from a have p: "pick g2 ld = pick g ld" by (rule pick_agree)
        with False True show ?thesis
          by (subst play_out_hand.simps) (auto simp: advance_drop)
      qed
      then show ?thesis by blast
    next
      case b: False
      from "1.IH"[OF _ _ b] False obtain k tmp rest where
        ih: "\<And>g2. agree k (advance g) g2 \<Longrightarrow>
          play_out_hand (pc @ [pick g ld]) (remove1 (pick g ld) ld) g2 = (tmp, rest, drop_draws k g2)"
        by blast
      have "play_out_hand pc ld g2 = (tmp, rest, drop_draws (1 + k) g2)" if a: "agree (1 + k) g g2" for g2
      proof -
        from a have p: "pick g2 ld = pick g ld" by (rule pick_agree)
        from agree_split(2)[OF a] have "agree k (advance g) (advance g2)" by (simp add: advance_drop)
        from ih[OF this] have "play_out_hand (pc @ [pick g ld]) (remove1 (pick g ld) ld) (advance g2)
            = (tmp, rest, drop_draws (1 + k) g2)"
          by (simp add: advance_drop drop_drop)
        with False b p show ?thesis by (subst play_out_hand.simps) auto
      qed
      then show ?thesis by blast
    qed
  qed
qed

lemma reads_errI_Inl: "(\<And>g2. agree k g g2 \<Longrightarrow> f g2 = Inl e) \<Longrightarrow> reads_err f g"
  unfolding reads_err_def by blast

lemma reads_errI_Inr:
  "(\<And>g2. agree k g g2 \<Longrightarrow> f g2 = Inr (x, drop_draws k g2)) \<Longrightarrow> reads_err f g"
  unfolding reads_err_def by blast

lemma reads_err_const: "reads_err (\<lambda>g. Inl e) g"
  by (rule reads_errI_Inl[of 0]) simp

lemma reads_err_seq:
  assumes f: "reads_err f g"
    and h: "\<And>x g'. reads_err (h x) g'"
    and F: "\<And>g. F g = (case f g of Inl e \<Rightarrow> Inl e | Inr (x, g') \<Rightarrow> h x g')"
  shows "reads_err F g"
proof -
  from f obtain k where
    k: "(\<exists>e. \<forall>g2. agree k g g2 \<longrightarrow> f g2 = Inl e)
        \<or> (\<exists>x. \<forall>g2. agree k g g2 \<longrightarrow> f g2 = Inr (x, drop_draws k g2))"
    unfolding reads_err_def by blast
  from k show ?thesis
  proof
    assume "\<exists>e. \<forall>g2. agree k g g2 \<longrightarrow> f g2 = Inl e"
    then obtain e where "\<And>g2. agree k g g2 \<Longrightarrow> f g2 = Inl e" by blast
    then have "\<And>g2. agree k g g2 \<Longrightarrow> F g2 = Inl e" by (simp add: F)
    then show ?thesis by (rule reads_errI_Inl)
  next
    assume "\<exists>x. \<forall>g2. agree k g g2 \<longrightarrow> f g2 = Inr (x, drop_draws k g2)"
    then obtain x where x: "\<And>g2. agree k g g2 \<Longrightarrow> f g2 = Inr (x, drop_draws k g2)" by blast
    from h[of x "drop_draws k g"] obtain m where
      m: "(\<exists>e. \<forall>g2. agree m (drop_draws k g) g2 \<longrightarrow> h x g2 = Inl e)
        \<or> (\<exists>y. \<forall>g2. agree m (drop_draws k g) g2 \<longrightarrow> h x g2 = Inr (y, drop_draws m g2))"
      unfolding reads_err_def by blast
    from m show ?thesis
    proof
      assume "\<exists>e. \<forall>g2. agree m (drop_draws k g) g2 \<longrightarrow> h x g2 = Inl e"
      then obtain e where e: "\<And>g2. agree m (drop_draws k g) g2 \<Longrightarrow> h x g2 = Inl e" by blast
      have "F g2 = Inl e" if a: "agree (k + m) g g2" for g2
        using x[OF agree_split(1)[OF a]] e[OF agree_split(2)[OF a]] by (simp add: F)
      then show ?thesis by (rule reads_errI_Inl)
    next
      assume "\<exists>y. \<forall>g2. agree m (drop_draws k g) g2 \<longrightarrow> h x g2 = Inr (y, drop_draws m g2)"
      then obtain y where
        y: "\<And>g2. agree m (drop_draws k g) g2 \<Longrightarrow> h x g2 = Inr (y, drop_draws m g2)" by blast
      have "F g2 = Inr (y, drop_draws (k + m) g2)" if a: "agree (k + m) g g2" for g2
        using x[OF agree_split(1)[OF a]] y[OF agree_split(2)[OF a]] by (simp add: F drop_drop)
      then show ?thesis by (rule reads_errI_Inr)
    qed
  qed
qed

lemma reads_err_pure:
  assumes "\<exists>k x. \<forall>g2. agree k g g2 \<longrightarrow> P g2 = (x, drop_draws k g2)"
  shows "reads_err (\<lambda>g. Inr (P g)) g"
proof -
  from assms obtain k x where "\<And>g2. agree k g g2 \<Longrightarrow> P g2 = (x, drop_draws k g2)" by blast
  then have "\<And>g2. agree k g g2 \<Longrightarrow> Inr (P g2) = (Inr (x, drop_draws k g2) :: error + _)" by simp
  then show ?thesis by (rule reads_errI_Inr)
qed

text \<open>After a player's part that reads a prefix, the dealer's hand and the settlement.\<close>

lemma then_dealer_reads:
  assumes "\<exists>k tmp local. \<forall>g2. agree k g g2 \<longrightarrow> P g2 = (tmp, local, drop_draws k g2)"
  shows "\<exists>k x. \<forall>g2. agree k g g2 \<longrightarrow>
     (case P g2 of (tmp_cards, local_shoe, g1) \<Rightarrow>
        (case simulate_dealer_hand_once d local_shoe g1 of
           (d_total, g3) \<Rightarrow> (settle bet (hand_value tmp_cards) d_total, g3)))
     = (x, drop_draws k g2)"
proof -
  from assms obtain k tmp local where
    p: "\<And>g2. agree k g g2 \<Longrightarrow> P g2 = (tmp, local, drop_draws k g2)" by blast
  from simulate_dealer_hand_once_reads[of "drop_draws k g" d local] obtain m t where
    s: "\<And>g2. agree m (drop_draws k g) g2 \<Longrightarrow>
       simulate_dealer_hand_once d local g2 = (t, drop_draws m g2)" by blast
  have "(case P g2 of (tmp_cards, local_shoe, g1) \<Rightarrow>
        (case simulate_dealer_hand_once d local_shoe g1 of
           (d_total, g3) \<Rightarrow> (settle bet (hand_value tmp_cards) d_total, g3)))
     = (settle bet (hand_value tmp) t, drop_draws (k + m) g2)" if a: "agree (k + m) g g2" for g2
    using p[OF agree_split(1)[OF a]] s[OF agree_split(2)[OF a]] by (simp add: drop_drop)
  then show ?thesis by blast
qed

lemma hit_trial_reads: "reads_err (hit_trial pc d sc) g"
proof (cases "build_shoe_list sc")
  case (Inl e)
  then have "hit_trial pc d sc = (\<lambda>g. Inl e)" by (simp add: hit_trial_def fun_eq_iff)
  then show ?thesis by (simp add: reads_err_const)
next
  case (Inr sl)
  have "\<exists>k tmp local. \<forall>g2. agree k g g2 \<longrightarrow>
      hit_before_dealer pc d sl g2 = (tmp, local, drop_draws k g2)"
    unfolding hit_before_dealer_def by (rule play_out_hand_reads)
  from reads_err_pure[OF then_dealer_reads[OF this, where d = d and bet = 1]]
  show ?thesis using Inr by (simp add: hit_trial_def[abs_def] split_def)
qed

lemma double_before_dealer_reads:
  "\<exists>k tmp local. \<forall>g2. agree k g g2 \<longrightarrow>
      double_before_dealer pc d sl g2 = (tmp, local, drop_draws k g2)"
proof (cases "remove_if_present d (remove_known_cards pc sl) = []")
  case True
  then have "double_before_dealer pc d sl g2
      = (pc @ [0], remove_if_present 0 (remove_if_present d (remove_known_cards pc sl)),
         drop_draws 0 g2)" for g2
    by (simp add: double_before_dealer_def drop_draws_0)
  then show ?thesis by blast
next
  case False
  let ?l = "remove_if_present d (remove_known_cards pc sl)"
  have "double_before_dealer pc d sl g2
      = (pc @ [pick g ?l], remove_if_present (pick g ?l) ?l, drop_draws (1 + 0) g2)"
    if a: "agree (1 + 0) g g2" for g2
    using False pick_agree[OF a, of ?l]
    by (simp add: double_before_dealer_def Let_def advance_drop)
  then show ?thesis by blast
qed

lemma double_trial_reads: "reads_err (double_trial pc d sc) g"
proof (cases "build_shoe_list sc")
  case (Inl e)
  then have "double_trial pc d sc = (\<lambda>g. Inl e)" by (simp add: double_trial_def fun_eq_iff)
  then show ?thesis by (simp add: reads_err_const)
next
  case (Inr sl)
  from reads_err_pure[OF then_dealer_reads[OF double_before_dealer_reads, where d = d and bet = 2]]
  show ?thesis using Inr by (simp add: double_trial_def[abs_def] split_def)
qed

lemma reads_err_return: "reads_err (\<lambda>g. Inr (x, g)) g"
  by (rule reads_errI_Inr[of 0]) (simp add: drop_draws_0)

lemma split_sub_hand_reads:
  "reads_err (\<lambda>g. case split_sub_hand s d ls g of
                     Inl e \<Rightarrow> Inl e
                   | Inr (r, l, g') \<Rightarrow> Inr ((r, l), g')) g"
proof (cases "ls = []")
  case True
  then have "(\<lambda>g. case split_sub_hand s d ls g of
                     Inl e \<Rightarrow> Inl e
                   | Inr (r, l, g') \<Rightarrow> Inr ((r, l), g')) = (\<lambda>g. Inl IndexError)"
    by (simp add: split_sub_hand_def fun_eq_iff)
  then show ?thesis by (simp only: reads_err_const)
next
  case False
  from play_out_hand_reads[of "advance g" "[s, pick g ls]" "remove1 (pick g ls) ls"]
  obtain k sub ls' where
    p: "\<And>g2. agree k (advance g) g2 \<Longrightarrow>
      play_out_hand [s, pick g ls] (remove1 (pick g ls) ls) g2 = (sub, ls', drop_draws k g2)"
    by blast
  from simulate_dealer_hand_once_reads[of "drop_draws k (advance g)" d ls'] obtain m t where
    q: "\<And>g2. agree m (drop_draws k (advance g)) g2 \<Longrightarrow>
      simulate_dealer_hand_once d ls' g2 = (t, drop_draws m g2)"
    by blast
  have "(case split_sub_hand s d ls g2 of
           Inl e \<Rightarrow> Inl e
         | Inr (r, l, g') \<Rightarrow> Inr ((r, l), g'))
      = Inr ((compare_final_totals (hand_value sub) t, ls'), drop_draws (1 + (k + m)) g2)"
    if a: "agree (1 + (k + m)) g g2" for g2
  proof -
    from a have pk: "pick g2 ls = pick g ls" by (rule pick_agree)
    from agree_split(2)[OF a] have b: "agree (k + m) (advance g) (advance g2)"
      by (simp add: advance_drop)
    from p[OF agree_split(1)[OF b]]
    have p2: "play_out_hand [s, pick g ls] (remove1 (pick g ls) ls) (advance g2)
        = (sub, ls', drop_draws k (advance g2))" .
    from q[OF agree_split(2)[OF b]]
    have q2: "simulate_dealer_hand_once d ls' (drop_draws k (advance g2))
        = (t, drop_draws m (drop_draws k (advance g2)))" .
    have "drop_draws m (drop_draws k (advance g2)) = drop_draws (1 + (k + m)) g2"
      by (simp add: advance_drop drop_drop)
    with False pk p2 q2 show ?thesis by (simp add: split_sub_hand_def)
  qed
  then show ?thesis by (rule reads_errI_Inr)
qed

lemma split_trial_reads: "reads_err (split_trial s d sc) g"
proof (cases "build_shoe_list sc")
  case (Inl e)
  then have "split_trial s d sc = (\<lambda>g. Inl e)" by (simp add: split_trial_def fun_eq_iff)
  then show ?thesis by (simp add: reads_err_const)
next
  case (Inr sl)
  show ?thesis
  proof (cases "count_list sl s \<ge> 2")
    case False
    with Inr have "split_trial s d sc = (\<lambda>g. Inr (0, g))"
      by (simp add: split_trial_def fun_eq_iff)
    then show ?thesis by (simp only: reads_err_return)
  next
    case True
    let ?l0 = "remove_if_present d (remove1 s (remove1 s sl))"
    let ?f = "\<lambda>g. case split_sub_hand s d ?l0 g of
                     Inl e \<Rightarrow> Inl e
                   | Inr (r, l, g') \<Rightarrow> Inr ((r, l), g')"
    let ?h2 = "\<lambda>r1 (x :: int \<times> int list) g. (Inr (r1 + fst x, g) :: error + int \<times> rng)"
    let ?h = "\<lambda>x g. case (case split_sub_hand s d (snd x) g of
                              Inl e \<Rightarrow> Inl e
                            | Inr (r, l, g') \<Rightarrow> Inr ((r, l), g')) of
                      Inl e \<Rightarrow> Inl e
                    | Inr (y, g') \<Rightarrow> ?h2 (fst x) y g'"
    have h: "reads_err (?h x) g'" for x g'
      by (rule reads_err_seq[OF split_sub_hand_reads[of s d "snd x" g'],
            where h = "?h2 (fst x)"]) (rule reads_err_return, rule refl)
    show ?thesis
    proof (rule reads_err_seq[OF split_sub_hand_reads[of s d ?l0 g], where h = ?h])
      show "reads_err (?h x) g'" for x g' by (rule h)
      show "split_trial s d sc g =
          (case ?f g of Inl e \<Rightarrow> Inl e | Inr (x, g') \<Rightarrow> ?h x g')" for g
        using Inr True by (simp add: split_trial_def split: sum.splits)
    qed
  qed
qed

lemma dealer_hands_loop_reads:
  "\<exists>k ts. \<forall>g2. agree k g g2 \<longrightarrow> dealer_hands_loop d sl n acc g2 = (ts, drop_draws k g2)"
proof (induction n arbitrary: acc g)
  case (0 acc g)
  have "dealer_hands_loop d sl 0 acc g2 = (acc, drop_draws 0 g2)" for g2
    by (simp add: drop_draws_0)
  then show ?case by blast
next
  case (Suc n acc g)
  from simulate_dealer_hand_once_reads[of g d sl] obtain k t where
    s: "\<And>g2. agree k g g2 \<Longrightarrow> simulate_dealer_hand_once d sl g2 = (t, drop_draws k g2)" by blast
  from Suc.IH[of "drop_draws k g" "acc @ [t]"] obtain m ts where
    l: "\<And>g2. agree m (drop_draws k g) g2 \<Longrightarrow>
      dealer_hands_loop d sl n (acc @ [t]) g2 = (ts, drop_draws m g2)" by blast
  have "dealer_hands_loop d sl (Suc n) acc g2 = (ts, drop_draws (k + m) g2)"
    if a: "agree (k + m) g g2" for g2
    using s[OF agree_split(1)[OF a]] l[OF agree_split(2)[OF a]] by (simp add: drop_drop)
  then show ?case by blast
qed

lemma stand_chunk_reads: "reads_err (stand_chunk pt soft d sc c) g"
proof (cases "build_shoe_list sc")
  case (Inl e)
  then have "stand_chunk pt soft d sc c = (\<lambda>g. Inl e)"
    by (simp add: stand_chunk_def simulate_dealer_hands_def fun_eq_iff)
  then show ?thesis by (simp add: reads_err_const)
next
  case (Inr sl)
  from dealer_hands_loop_reads[of g d sl c "[]"] obtain k ts where
    "\<And>g2. agree k g g2 \<Longrightarrow> dealer_hands_loop d sl c [] g2 = (ts, drop_draws k g2)" by blast
  then have "\<And>g2. agree k g g2 \<Longrightarrow> stand_chunk pt soft d sc c g2
      = Inr (process_results_for_stand_like pt ts soft, drop_draws k g2)"
    using Inr by (simp add: stand_chunk_def simulate_dealer_hands_def)
  then show ?thesis by (rule reads_errI_Inr)
qed

lemma trials_loop_reads:
  assumes "\<And>g. reads_err trial g"
  shows "reads_err (trials_loop trial n acc) g"
proof (induction n arbitrary: acc g)
  case (0 acc g)
  have "trials_loop trial 0 acc = (\<lambda>g. Inr (acc, g))" by (simp add: fun_eq_iff)
  then show ?case by (simp only: reads_err_return)
next
  case (Suc n acc g)
  show ?case
    by (rule reads_err_seq[OF assms[of g], where h = "\<lambda>r. trials_loop trial n (acc + r)"])
       (rule Suc, simp)
qed

lemma split_loop_reads:
  assumes "\<And>g. reads_err chunk g"
  shows "reads_err (split_loop chunk ixs acc) g"
proof (induction ixs arbitrary: acc g)
  case (Nil acc g)
  have "split_loop chunk [] acc = (\<lambda>g. Inr (acc, g))" by (simp add: fun_eq_iff)
  then show ?case by (simp only: reads_err_return)
next
  case (Cons i ixs acc g)
  show ?case
    by (rule reads_err_seq[OF assms[of g], where h = "\<lambda>r. split_loop chunk ixs (acc + r)"])
       (rule Cons, simp)
qed

lemma checkpoint_loop_reads:
  assumes "\<And>g. reads_err chunk g"
  shows "reads_err (\<lambda>g. case checkpoint_loop chunk c ixs ev cps g of
                          Inl e \<Rightarrow> Inl e
                        | Inr (v, t, g') \<Rightarrow> Inr ((v, t), g')) g"
proof (induction ixs arbitrary: ev cps g)
  case (Nil ev cps g)
  have "(\<lambda>g. case checkpoint_loop chunk c [] ev cps g of
                          Inl e \<Rightarrow> Inl e
                        | Inr (v, t, g') \<Rightarrow> Inr ((v, t), g')) = (\<lambda>g. Inr ((ev, cps), g))"
    by (simp add: fun_eq_iff)
  then show ?case by (simp only: reads_err_return)
next
  case (Cons i ixs ev cps g)
  let ?h = "\<lambda>x g. if (i + 1) * c = 0 then Inl ZeroDivisionError
      else (case checkpoint_loop chunk c ixs (ev + x)
                   (cps @ [of_int (ev + x) / of_nat ((i + 1) * c)]) g of
              Inl e \<Rightarrow> Inl e
            | Inr (v, t, g') \<Rightarrow> Inr ((v, t), g'))"
  have h: "reads_err (?h x) g'" for x g'
  proof (cases "(i + 1) * c = 0")
    case True
    then have "?h x = (\<lambda>g. Inl ZeroDivisionError)" by simp
    then show ?thesis by (simp only: reads_err_const)
  next
    case False
    then have "?h x = (\<lambda>g. case checkpoint_loop chunk c ixs (ev + x)
                   (cps @ [of_int (ev + x) / of_nat ((i + 1) * c)]) g of
              Inl e \<Rightarrow> Inl e
            | Inr (v, t, g') \<Rightarrow> Inr ((v, t), g'))"
      by (simp only: if_False)
    then show ?thesis by (simp only: Cons)
  qed
  show ?case
    by (rule reads_err_seq[OF assms[of g], where h = ?h])
       (rule h, simp split: sum.splits)
qed

lemma checkpoints_then_float_reads:
  assumes "\<And>g. reads_err chunk g"
  shows "reads_err (\<lambda>g. case (case checkpoint_loop chunk c ixs 0 [] g of
                                 Inl e \<Rightarrow> Inl e
                               | Inr (ev, checkpoint_means, g') \<Rightarrow>
                                   Inr (of_int ev :: rat, checkpoint_means, g')) of
                          Inl e \<Rightarrow> Inl e
                        | Inr (v, t, g') \<Rightarrow> Inr ((v, t), g')) g"
  by (rule reads_err_seq[OF checkpoint_loop_reads[OF assms, of c ixs 0 "[]" g],
        where h = "\<lambda>x g. Inr ((of_int (fst x), snd x), g)"])
     (rule reads_err_return, simp split: sum.splits)

lemma run_action_reads:
  "reads_err (\<lambda>g. case run_action pc d sc action c g of
                      Inl e \<Rightarrow> Inl e
                    | Inr (v, t, g') \<Rightarrow> Inr ((v, t), g')) g"
proof -
  consider "action = ''Stand''" | "action = ''Hit''" | "action = ''Double Down''"
    | "action = ''Split''"
    | "action \<noteq> ''Stand''" "action \<noteq> ''Hit''" "action \<noteq> ''Double Down''" "action \<noteq> ''Split''"
    by blast
  then show ?thesis
  proof cases
    case 1
    show ?thesis unfolding run_action_def 1
      using checkpoints_then_float_reads[OF stand_chunk_reads, of "hand_value pc" "is_soft_hand pc"
          d sc c c "[0..<10]" g]
      by simp
  next
    case 2
    show ?thesis unfolding run_action_def 2
      using checkpoints_then_float_reads[OF trials_loop_reads[OF hit_trial_reads],
          of pc d sc c 0 c "[0..<10]" g]
      by simp
  next
    case 3
    show ?thesis unfolding run_action_def 3
      using checkpoints_then_float_reads[OF trials_loop_reads[OF double_trial_reads],
          of pc d sc c 0 c "[0..<10]" g]
      by simp
  next
    case 4
    show ?thesis
    proof (cases pc)
      case Nil
      then have "(\<lambda>g. case run_action pc d sc action c g of
                      Inl e \<Rightarrow> Inl e
                    | Inr (v, t, g') \<Rightarrow> Inr ((v, t), g')) = (\<lambda>g. Inl IndexError)"
        unfolding run_action_def 4 by (simp add: fun_eq_iff)
      then show ?thesis by (simp only: reads_err_const)
    next
      case (Cons s rest)
      let ?h = "\<lambda>acc g. if 10 * c = 0 then Inl ZeroDivisionError
          else Inr ((of_int acc / (of_nat (10 * c) :: rat), [] :: rat list), g)"
      have h: "reads_err (?h x) g'" for x g'
        by (cases "10 * c = 0") (simp_all add: reads_err_const reads_err_return)
      show ?thesis
        by (rule reads_err_seq[OF split_loop_reads[OF trials_loop_reads[OF split_trial_reads],
                of s d sc c 0 "[0..<10]" 0 g], where h = ?h])
           (rule h, simp add: run_action_def 4 Cons split: sum.splits)
    qed
  next
    case 5
    then have "(\<lambda>g. case run_action pc d sc action c g of
                      Inl e \<Rightarrow> Inl e
                    | Inr (v, t, g') \<Rightarrow> Inr ((v, t), g')) = (\<lambda>g. Inr ((0, []), g))"
      unfolding run_action_def by (simp add: fun_eq_iff)
    then show ?thesis by (simp only: reads_err_return)
  qed
qed

text \<open>Claim C10. For every action, hand, upcard, shoe and trial count, a run of the
  estimator reads a finite prefix of the random stream: there is a number \<open>k\<close> of draws
  such that every second run from the same arguments and shoe whose stream agrees with
  the first on its first \<open>k\<close> draws returns the same EV and the same convergence trace
  (or raises the same error), whatever the clock reads and whatever the streams hold
  later. Two runs on the same stream are the case of full agreement.\<close>

theorem monte_carlo_ev_same_stream_same_result:
  "\<exists>k. \<forall>g2 clock2. agree k g g2 \<longrightarrow>
     map_sum id (\<lambda>((ev, elapsed, checkpoint_means), w). (ev, checkpoint_means))
       (monte_carlo_ev player_cards dealer_card_val sc action simulations g2 clock2)
   = map_sum id (\<lambda>((ev, elapsed, checkpoint_means), w). (ev, checkpoint_means))
       (monte_carlo_ev player_cards dealer_card_val sc action simulations g clock)"
proof -
  let ?run = "\<lambda>g. case run_action player_cards dealer_card_val sc action (simulations div 10) g of
                      Inl e \<Rightarrow> Inl e
                    | Inr (v, t, g') \<Rightarrow> Inr ((v, t), g')"
  let ?out = "\<lambda>g clock. map_sum id (\<lambda>((ev, elapsed, checkpoint_means), w). (ev, checkpoint_means))
       (monte_carlo_ev player_cards dealer_card_val sc action simulations g clock)"
  from run_action_reads[of player_cards dealer_card_val sc action "simulations div 10" g]
  obtain k where
    k: "(\<exists>e. \<forall>g2. agree k g g2 \<longrightarrow> ?run g2 = Inl e)
        \<or> (\<exists>x. \<forall>g2. agree k g g2 \<longrightarrow> ?run g2 = Inr (x, drop_draws k g2))"
    unfolding reads_err_def by blast
  have "?out g2 clock2 = ?out g clock" if a: "agree k g g2" for g2 clock2
    using k
  proof
    assume "\<exists>e. \<forall>g2. agree k g g2 \<longrightarrow> ?run g2 = Inl e"
    then obtain e where e: "\<And>g2. agree k g g2 \<Longrightarrow> ?run g2 = Inl e" by blast
    from e[OF a] e[OF agree_refl] show ?thesis
      by (auto simp: monte_carlo_ev_def split: sum.splits)
  next
    assume "\<exists>x. \<forall>g2. agree k g g2 \<longrightarrow> ?run g2 = Inr (x, drop_draws k g2)"
    then obtain x where x: "\<And>g2. agree k g g2 \<Longrightarrow> ?run g2 = Inr (x, drop_draws k g2)" by blast
    from x[OF a] x[OF agree_refl] show ?thesis
      by (auto simp: monte_carlo_ev_def split: sum.splits)
  qed
  then show ?thesis by blast
qed

theorem monte_carlo_ev_same_stream_witness:
  "\<exists>k. agree k (\<lambda>i. i * 7 + 3) (\<lambda>i. if i < k then i * 7 + 3 else 0)
     \<and> map_sum id (\<lambda>((ev, elapsed, checkpoint_means), w). (ev, checkpoint_means))
         (monte_carlo_ev [8, 8] 10 example_shoe ''Hit'' 10
            (\<lambda>i. if i < k then i * 7 + 3 else 0) (\<lambda>i. 0))
       = Inr (- (597 / 1000),
              [- 1, - 1, - 1, - 1, - 1, - (2 / 3), - (5 / 7), - (3 / 4), - (5 / 9), - (3 / 5)])"
proof -
  have e: "map_sum id (\<lambda>((ev, elapsed, checkpoint_means), w). (ev, checkpoint_means))
         (monte_carlo_ev [8, 8] 10 example_shoe ''Hit'' 10 (\<lambda>i. i * 7 + 3) (\<lambda>i. of_nat i))
       = Inr (- (597 / 1000),
              [- 1, - 1, - 1, - 1, - 1, - (2 / 3), - (5 / 7), - (3 / 4), - (5 / 9), - (3 / 5)])"
    by code_simp
  from monte_carlo_ev_same_stream_same_result[of "\<lambda>i. i * 7 + 3" "[8, 8]" 10 example_shoe
      "''Hit''" 10 "\<lambda>i. of_nat i"]
  obtain k where
    k: "\<And>g2 clock2. agree k (\<lambda>i. i * 7 + 3) g2 \<Longrightarrow>
     map_sum id (\<lambda>((ev, elapsed, checkpoint_means), w). (ev, checkpoint_means))
       (monte_carlo_ev [8, 8] 10 example_shoe ''Hit'' 10 g2 clock2)
   = map_sum id (\<lambda>((ev, elapsed, checkpoint_means), w). (ev, checkpoint_means))
       (monte_carlo_ev [8, 8] 10 example_shoe ''Hit'' 10 (\<lambda>i. i * 7 + 3) (\<lambda>i. of_nat i))"
    by blast
  have a: "agree k (\<lambda>i. i * 7 + 3) (\<lambda>i. if i < k then i * 7 + 3 else 0)"
    by (simp add: agree_def)
  from k[OF a, of "\<lambda>i. 0"] e a show ?thesis
    by (intro exI[of _ k] conjI) (assumption, simp only:)
qed

section \<open>The selector as a whole\<close>

lemma evaluate_actions_total:
  assumes b: "build_shoe_list sc = Inr sl"
  shows "set actions \<subseteq> {''Stand'', ''Hit'', ''Double Down''} \<Longrightarrow>
     \<exists>evs g' clock'. evaluate_actions pc d sc actions g clock = Inr (evs, g', clock')"
proof (induction actions arbitrary: g clock)
  case Nil
  show ?case by simp
next
  case (Cons a actions g clock)
  from Cons.prems have a: "a \<in> {''Stand'', ''Hit'', ''Double Down''}"
    and rest: "set actions \<subseteq> {''Stand'', ''Hit'', ''Double Down''}" by simp_all
  have n: "SIMULATIONS = 10 * 1000" by (simp add: SIMULATIONS_def)
  have c: "0 < (1000 :: nat)" by simp
  from monte_carlo_ev_three[OF a c b, of pc d g clock] obtain r g1 clock1 where
    m: "monte_carlo_ev pc d sc a SIMULATIONS g clock = Inr (r, g1, clock1)"
    unfolding n by blast
  obtain ev el cps where r: "r = (ev, el, cps)" by (cases r)
  from Cons.IH[OF rest, of g1 clock1] obtain evs g' clock' where
    "evaluate_actions pc d sc actions g1 clock1 = Inr (evs, g', clock')" by blast
  with m r show ?case by simp
qed

lemma legal_actions_nonempty_names:
  "a \<in> set (legal_actions pc ft sh) \<Longrightarrow> a \<noteq> []"
  using legal_actions_cases[of pc ft sh] by auto

text \<open>Claim C7. Whenever the evaluation of the legal actions returns, \<open>get_player_action\<close>
  returns an action of highest EV, the earliest in the priority order Stand, Hit, Double
  Down, Split among those of equal EV; the runner-up is an action of highest EV among
  the others, and the reported difference is the best EV minus the runner-up's. At
  least two actions are always legal; on a single entry the selection has no runner-up
  and the report shows no difference (the local \<open>ev_diff\<close> is 0 and is not printed).\<close>

theorem get_player_action_selects_best:
  assumes "evaluate_actions player_cards dealer_card_val sc
             (legal_actions player_cards is_first_turn is_split_hand) g clock
           = Inr (evs, g', clock')"
  shows "(\<exists>best second e1 e2.
            get_player_action player_cards dealer_card_val sc is_first_turn is_split_hand g clock
              = Inr (best, g', clock')
            \<and> rank_actions evs = Inr (best, Some second, e1 - e2)
            \<and> printed_ev_diff (Some second) (e1 - e2) = Some (e1 - e2)
            \<and> map fst evs = legal_actions player_cards is_first_turn is_split_hand
            \<and> (best, e1) \<in> set evs \<and> (second, e2) \<in> set evs \<and> second \<noteq> best
            \<and> (\<forall>(a, e) \<in> set evs. e \<le> e1 \<and> (e = e1 \<longrightarrow> priority best \<le> priority a))
            \<and> (\<forall>(a, e) \<in> set evs. a \<noteq> best \<longrightarrow> e \<le> e2))
         \<and> 2 \<le> length (legal_actions player_cards is_first_turn is_split_hand)
         \<and> rank_actions [(a0, e0)] = Inr (a0, None, 0)
         \<and> printed_ev_diff None 0 = None"
proof -
  from assms have keys: "map fst evs = legal_actions player_cards is_first_turn is_split_hand"
    by (rule evaluate_actions_keys)
  from rank_actions_best_and_runner_up[OF keys, of a0 e0] obtain best second e1 e2 where
    r: "rank_actions evs = Inr (best, Some second, e1 - e2)"
    and b: "(best, e1) \<in> set evs" and s: "(second, e2) \<in> set evs" and ne: "second \<noteq> best"
    and mx: "\<forall>(a, e) \<in> set evs. e \<le> e1 \<and> (e = e1 \<longrightarrow> priority best \<le> priority a)"
    and ru: "\<forall>(a, e) \<in> set evs. a \<noteq> best \<longrightarrow> e \<le> e2"
    and single: "rank_actions [(a0, e0)] = Inr (a0, None, 0)"
    by blast
  from s have "second \<in> set (map fst evs)" by force
  then have "second \<noteq> []" unfolding keys by (rule legal_actions_nonempty_names)
  then have pr: "printed_ev_diff (Some second) (e1 - e2) = Some (e1 - e2)"
    by (simp add: printed_ev_diff_def)
  from assms r have gpa: "get_player_action player_cards dealer_card_val sc is_first_turn
      is_split_hand g clock = Inr (best, g', clock')"
    by (simp add: get_player_action_def)
  have len: "2 \<le> length (legal_actions player_cards is_first_turn is_split_hand)"
    using legal_actions_shape[of player_cards is_first_turn is_split_hand] by simp
  have none: "printed_ev_diff None 0 = None" by (simp add: printed_ev_diff_def)
  have "\<exists>best second e1 e2.
            get_player_action player_cards dealer_card_val sc is_first_turn is_split_hand g clock
              = Inr (best, g', clock')
            \<and> rank_actions evs = Inr (best, Some second, e1 - e2)
            \<and> printed_ev_diff (Some second) (e1 - e2) = Some (e1 - e2)
            \<and> map fst evs = legal_actions player_cards is_first_turn is_split_hand
            \<and> (best, e1) \<in> set evs \<and> (second, e2) \<in> set evs \<and> second \<noteq> best
            \<and> (\<forall>(a, e) \<in> set evs. e \<le> e1 \<and> (e = e1 \<longrightarrow> priority best \<le> priority a))
            \<and> (\<forall>(a, e) \<in> set evs. a \<noteq> best \<longrightarrow> e \<le> e2)"
    using gpa r pr keys b s ne mx ru
    by - (intro exI[of _ best] exI[of _ second] exI[of _ e1] exI[of _ e2] conjI, assumption+)
  with len single none show ?thesis by (intro conjI)
qed

theorem get_player_action_selects_best_witness:
  "\<exists>evs g' clock' best second e1 e2.
     evaluate_actions [10, 6] 10 example_shoe (legal_actions [10, 6] True False)
       (\<lambda>i. i * 7 + 3) (\<lambda>i. of_nat i) = Inr (evs, g', clock')
     \<and> get_player_action [10, 6] 10 example_shoe True False (\<lambda>i. i * 7 + 3) (\<lambda>i. of_nat i)
       = Inr (best, g', clock')
     \<and> rank_actions evs = Inr (best, Some second, e1 - e2)
     \<and> printed_ev_diff (Some second) (e1 - e2) = Some (e1 - e2)
     \<and> map fst evs = [''Stand'', ''Hit'', ''Double Down'']
     \<and> (best, e1) \<in> set evs \<and> (second, e2) \<in> set evs \<and> second \<noteq> best"
proof -
  have l: "legal_actions [10, 6] True False = [''Stand'', ''Hit'', ''Double Down'']"
    by (simp add: legal_actions_def)
  have sub: "set (legal_actions [10, 6] True False) \<subseteq> {''Stand'', ''Hit'', ''Double Down''}"
    unfolding l by simp
  from evaluate_actions_total[OF example_shoe_list sub, of "[10, 6]" 10 "\<lambda>i. i * 7 + 3"
      "\<lambda>i. of_nat i"]
  obtain evs g' clock' where
    ev: "evaluate_actions [10, 6] 10 example_shoe (legal_actions [10, 6] True False)
       (\<lambda>i. i * 7 + 3) (\<lambda>i. of_nat i) = Inr (evs, g', clock')"
    by blast
  from get_player_action_selects_best[OF ev, of "[]" 0] obtain best second e1 e2 where
    "get_player_action [10, 6] 10 example_shoe True False (\<lambda>i. i * 7 + 3) (\<lambda>i. of_nat i)
       = Inr (best, g', clock')"
    "rank_actions evs = Inr (best, Some second, e1 - e2)"
    "printed_ev_diff (Some second) (e1 - e2) = Some (e1 - e2)"
    "map fst evs = legal_actions [10, 6] True False"
    "(best, e1) \<in> set evs" "(second, e2) \<in> set evs" "second \<noteq> best"
    by blast
  with ev show ?thesis
    unfolding l
    by - (intro exI[of _ evs] exI[of _ g'] exI[of _ clock'] exI[of _ best] exI[of _ second]
        exI[of _ e1] exI[of _ e2] conjI, assumption+)
qed

end
